theory Spec2Isabelle
  imports Main
begin

section \<open>The plan tree\<close>

text \<open>
  A \<open>QueryPlan::Node\<close> owns one step and an ordered vector of pointers to its children.
  The arena \<open>QueryPlan::Nodes\<close> is modelled as a store from node addresses to nodes: a
  pointer \<open>Node *\<close> is a natural number, \<open>frame.node->children\<close> is
  \<open>children (nodes (node frame))\<close>. The step payload is a type parameter.
\<close>

record 'step node =
  step :: 'step
  children :: "nat list"

type_synonym 'step nodes = "nat \<Rightarrow> 'step node"

section \<open>Settings, errors and the registry\<close>

text \<open>
  The members of \<open>QueryPlanOptimizationSettings\<close> that \<open>optimizeTree.cpp\<close> reads. The
  header that declares the struct is not part of the sources at hand, so the two member
  types that are only passed on are left abstract, and the record is used through its
  extensible scheme: the extension carries the boolean members that only the registry's
  \<open>is_enabled\<close> member pointers address.
\<close>

typedecl vector_search_filter_strategy
typedecl network_transfer_limits

record settings =
  optimize_plan :: bool
  max_optimizations_to_apply :: nat
  is_explain :: bool
  max_limit_for_vector_search_queries :: nat
  vector_search_filter_strategy :: vector_search_filter_strategy
  use_index_for_in_with_subqueries_max_values :: nat
  network_transfer_limits :: network_transfer_limits
  optimize_prewhere :: bool
  read_in_order :: bool
  distinct_in_order :: bool
  merge_expressions :: bool
  remove_redundant_sorting :: bool
  optimize_projection :: bool
  optimize_use_implicit_projections :: bool
  aggregation_in_order :: bool
  optimize_lazy_materialization :: bool
  max_limit_for_lazy_materialization :: nat
  force_use_projection :: bool
  force_projection_name :: string
  query_plan_join_shard_by_pk_ranges :: bool

text \<open>\<open>Optimization::ExtraSettings\<close>, built once per pass from four members of the settings.\<close>

record extra_settings =
  extra_max_limit_for_vector_search_queries :: nat
  extra_vector_search_filter_strategy :: vector_search_filter_strategy
  extra_use_index_for_in_with_subqueries_max_values :: nat
  extra_network_transfer_limits :: network_transfer_limits

definition make_extra_settings :: "'a settings_scheme \<Rightarrow> extra_settings" where
  "make_extra_settings optimization_settings =
     \<lparr>extra_max_limit_for_vector_search_queries =
        max_limit_for_vector_search_queries optimization_settings,
      extra_vector_search_filter_strategy =
        vector_search_filter_strategy optimization_settings,
      extra_use_index_for_in_with_subqueries_max_values =
        use_index_for_in_with_subqueries_max_values optimization_settings,
      extra_network_transfer_limits = network_transfer_limits optimization_settings\<rparr>"

text \<open>
  The exceptions the two passes throw, by error code. The budget error carries the limit
  it prints, the name error the projection name.
\<close>

datatype error =
  TOO_MANY_QUERY_PLAN_OPTIMIZATIONS nat
  | PROJECTION_NOT_USED
  | INCORRECT_DATA string

text \<open>
  An \<open>Optimization\<close> of the registry: the rule (a null function pointer is \<open>None\<close>) and
  the member pointer to its enabling flag. A rule receives the node it is applied to, the
  extra settings and the arena; it returns its update depth and the arena as it left it.
  The registry \<open>getOptimizations()\<close> itself is declared elsewhere and is a parameter of
  the driver.
\<close>

record ('a, 'step) optimization =
  apply_fn :: "(nat \<Rightarrow> extra_settings \<Rightarrow> 'step nodes \<Rightarrow> nat \<times> 'step nodes) option"
  is_enabled :: "'a settings_scheme \<Rightarrow> bool"

section \<open>The first pass\<close>

text \<open>
  The traversal frames. \<open>frame\<close> is the \<open>Frame\<close> of the second pass (node and next
  child); the first pass declares a local \<open>Frame\<close> that has a depth limit as well.
\<close>

record frame =
  node :: nat
  next_child :: nat

record first_pass_frame = frame +
  depth_limit :: nat

text \<open>
  The local state of \<open>optimizeTreeFirstPass\<close>: the stack (its top is the head of the
  list), the counter and the arena. \<open>visited\<close> is a ghost field, absent from the source:
  it records, in order, the node of every frame that reaches the rule loop. The
  \<open>size_t\<close> values are natural numbers: \<open>next_child\<close> is bounded by a vector's length,
  \<open>depth_limit\<close> is decremented only when it is not zero, and the counter grows by one per
  rule application, so it would take \<open>2^64\<close> applications in one run to wrap it around.
\<close>

record 'step first_pass_state =
  stack :: "first_pass_frame list"
  total_applied_optimizations :: nat
  nodes :: "'step nodes"
  visited :: "nat list"

text \<open>How a piece of the loop body ends: it falls through, the function returns, or it throws.\<close>

datatype ('a, 'b) flow = Next 'a | Return 'b | Throw error

text \<open>
  The \<open>for\<close> loop over the registry at one node. The accumulator is
  \<open>max_update_depth\<close> with the counter and the arena.
\<close>

fun apply_optimizations ::
  "'a settings_scheme \<Rightarrow> extra_settings \<Rightarrow> nat \<Rightarrow> ('a, 'step) optimization list \<Rightarrow>
   nat \<times> nat \<times> 'step nodes \<Rightarrow> (nat \<times> nat \<times> 'step nodes, nat \<times> 'step nodes) flow" where
  "apply_optimizations optimization_settings extra n [] acc = Next acc"
| "apply_optimizations optimization_settings extra n (optimization # rest)
     (max_update_depth, applied, ns) =
     (if \<not> is_enabled optimization optimization_settings
      then apply_optimizations optimization_settings extra n rest (max_update_depth, applied, ns)
      else case apply_fn optimization of
        None \<Rightarrow> apply_optimizations optimization_settings extra n rest (max_update_depth, applied, ns)
      | Some rule \<Rightarrow>
          if max_optimizations_to_apply optimization_settings \<noteq> 0
             \<and> max_optimizations_to_apply optimization_settings < applied
          then (if is_explain optimization_settings then Return (applied, ns)
                else Throw (TOO_MANY_QUERY_PLAN_OPTIMIZATIONS
                              (max_optimizations_to_apply optimization_settings)))
          else (case rule n extra ns of (update_depth, ns') \<Rightarrow>
                  apply_optimizations optimization_settings extra n rest
                    (max max_update_depth update_depth,
                     (if update_depth \<noteq> 0 then applied + 1 else applied), ns')))"

text \<open>One iteration of the \<open>while\<close> loop on a stack whose top is \<open>fr\<close>.\<close>

definition first_pass_iteration ::
  "'a settings_scheme \<Rightarrow> ('a, 'step) optimization list \<Rightarrow> extra_settings \<Rightarrow>
   first_pass_frame \<Rightarrow> first_pass_frame list \<Rightarrow> 'step first_pass_state \<Rightarrow>
   ('step first_pass_state, 'step first_pass_state) flow" where
  "first_pass_iteration optimization_settings optimizations extra fr below st =
     (if depth_limit fr \<noteq> 1 \<and> next_child fr < length (children (nodes st (node fr)))
      then Next (st\<lparr>stack :=
             \<lparr>node = children (nodes st (node fr)) ! next_child fr, next_child = 0,
              depth_limit = (if depth_limit fr \<noteq> 0 then depth_limit fr - 1 else 0)\<rparr>
             # fr\<lparr>next_child := next_child fr + 1\<rparr> # below\<rparr>)
      else
        case apply_optimizations optimization_settings extra (node fr) optimizations
               (0, total_applied_optimizations st, nodes st) of
          Throw e \<Rightarrow> Throw e
        | Return (applied, ns) \<Rightarrow>
            Return (st\<lparr>total_applied_optimizations := applied, nodes := ns,
                       visited := visited st @ [node fr]\<rparr>)
        | Next (max_update_depth, applied, ns) \<Rightarrow>
            if max_update_depth \<noteq> 0
            then Next (st\<lparr>stack := fr\<lparr>depth_limit := max_update_depth, next_child := 0\<rparr> # below,
                          total_applied_optimizations := applied, nodes := ns,
                          visited := visited st @ [node fr]\<rparr>)
            else Next (st\<lparr>stack := below,
                          total_applied_optimizations := applied, nodes := ns,
                          visited := visited st @ [node fr]\<rparr>))"

text \<open>
  The \<open>while (!stack.empty())\<close> loop. It need not end (a rule may report a change
  for ever), so it is a partial function: \<open>None\<close> is a run that does not return.
\<close>

partial_function (option) first_pass_loop ::
  "'a settings_scheme \<Rightarrow> ('a, 'step) optimization list \<Rightarrow> extra_settings \<Rightarrow>
   'step first_pass_state \<Rightarrow> (error + 'step first_pass_state) option" where
  "first_pass_loop optimization_settings optimizations extra st =
     (case stack st of
        [] \<Rightarrow> Some (Inr st)
      | fr # below \<Rightarrow>
          (case first_pass_iteration optimization_settings optimizations extra fr below st of
             Throw e \<Rightarrow> Some (Inl e)
           | Return st' \<Rightarrow> Some (Inr st')
           | Next st' \<Rightarrow> first_pass_loop optimization_settings optimizations extra st'))"

text \<open>
  \<open>optimizeTreeFirstPass\<close>. The result is the error thrown, or the local state at the
  return: its \<open>nodes\<close> is the arena the caller sees afterwards.
\<close>

definition optimizeTreeFirstPass ::
  "'a settings_scheme \<Rightarrow> ('a, 'step) optimization list \<Rightarrow> nat \<Rightarrow> 'step nodes \<Rightarrow>
   (error + 'step first_pass_state) option" where
  "optimizeTreeFirstPass optimization_settings optimizations root ns =
     (if \<not> optimize_plan optimization_settings
      then Some (Inr \<lparr>stack = [], total_applied_optimizations = 0, nodes = ns, visited = []\<rparr>)
      else first_pass_loop optimization_settings optimizations
             (make_extra_settings optimization_settings)
             \<lparr>stack = [\<lparr>node = root, next_child = 0, depth_limit = 0\<rparr>],
              total_applied_optimizations = 0, nodes = ns, visited = []\<rparr>)"

section \<open>The second pass\<close>

text \<open>
  \<open>optimizeTreeSecondPass\<close> drives optimizations that are defined in other files. They
  are the fields of \<open>collaborators\<close>, each a function on the arena: the arguments the
  source passes, then the arena, and as result what the source reads back with the arena
  as the callee left it. \<open>typeid_cast\<close> on a step is a predicate on steps.
  Two callees receive the stack by reference and the source reads \<open>stack.back()\<close> right
  after the call, without a check: their result is the stack as a top frame and the
  frames below it. \<open>optimizeLazyMaterialization\<close> receives the stack as well, but the
  source goes on with the frame reference it took before the call, or leaves the loop:
  the stack is an argument only. The collaborators' own exceptions are outside this file.
\<close>

typedecl rhs_estimation
typedecl local_plan

record ('a, 'step) collaborators =
  optimizePrimaryKeyConditionAndLimit :: "frame list \<Rightarrow> 'step nodes \<Rightarrow> 'step nodes"
  updateQueryConditionCache :: "frame list \<Rightarrow> 'a settings_scheme \<Rightarrow> 'step nodes \<Rightarrow> 'step nodes"
  optimizePrewhere :: "frame list \<Rightarrow> 'step nodes \<Rightarrow> (frame \<times> frame list) \<times> 'step nodes"
  calculateHashTableCacheKeys :: "nat \<Rightarrow> 'step nodes \<Rightarrow> 'step nodes"
  optimizeJoinLogical :: "nat \<Rightarrow> 'a settings_scheme \<Rightarrow> 'step nodes \<Rightarrow> rhs_estimation \<times> 'step nodes"
  convertLogicalJoinToPhysical ::
    "nat \<Rightarrow> 'a settings_scheme \<Rightarrow> rhs_estimation \<Rightarrow> 'step nodes \<Rightarrow> bool \<times> 'step nodes"
  optimizeJoinLegacy :: "nat \<Rightarrow> 'a settings_scheme \<Rightarrow> 'step nodes \<Rightarrow> 'step nodes"
  optimizeReadInOrder :: "nat \<Rightarrow> 'step nodes \<Rightarrow> 'step nodes"
  optimizeDistinctInOrder :: "nat \<Rightarrow> 'step nodes \<Rightarrow> 'step nodes"
  is_ReadFromLocalParallelReplicaStep :: "'step \<Rightarrow> bool"
  extractQueryPlan :: "nat \<Rightarrow> 'step nodes \<Rightarrow> local_plan \<times> 'step nodes"
  optimize :: "'a settings_scheme \<Rightarrow> local_plan \<Rightarrow> local_plan"
  replaceNodeWithPlan :: "nat \<Rightarrow> local_plan \<Rightarrow> 'step nodes \<Rightarrow> 'step nodes"
  tryMergeExpressions :: "nat \<Rightarrow> 'step nodes \<Rightarrow> 'step nodes"
  tryRemoveRedundantSorting :: "nat \<Rightarrow> 'step nodes \<Rightarrow> 'step nodes"
  is_ReadFromMergeTree :: "'step \<Rightarrow> bool"
  optimizeUseAggregateProjections :: "nat \<Rightarrow> bool \<Rightarrow> 'step nodes \<Rightarrow> string option \<times> 'step nodes"
  optimizeAggregationInOrder :: "nat \<Rightarrow> 'step nodes \<Rightarrow> 'step nodes"
  optimizeUseNormalProjections ::
    "frame list \<Rightarrow> 'step nodes \<Rightarrow> string option \<times> (frame \<times> frame list) \<times> 'step nodes"
  optimizeLazyMaterialization :: "nat \<Rightarrow> frame list \<Rightarrow> nat \<Rightarrow> 'step nodes \<Rightarrow> bool \<times> 'step nodes"
  applyOrder :: "'a settings_scheme \<Rightarrow> nat \<Rightarrow> 'step nodes \<Rightarrow> 'step nodes"
  optimizeJoinByShards :: "nat \<Rightarrow> 'step nodes \<Rightarrow> 'step nodes"

text \<open>
  The local state of \<open>optimizeTreeSecondPass\<close> next to the stack: the arena and the three
  variables the function declares. \<open>calls\<close> is a ghost field, absent from the source: the
  driver appends \<open>Call f n\<close> when it calls collaborator \<open>f\<close> at node \<open>n\<close> (for a callee
  that takes the stack, the node of the top frame), and \<open>Applied f n\<close> after a call that
  answered \<open>true\<close> or returned a projection name.
\<close>

datatype call = Call string nat | Applied string nat

record 'step second_pass_state =
  plan_nodes :: "'step nodes"
  applied_projection_names :: "string set"
  has_reading_from_mt :: bool
  read_from_local_parallel_replica_plan :: bool
  calls :: "call list"

definition called :: "string \<Rightarrow> nat \<Rightarrow> 'step nodes \<Rightarrow> 'step second_pass_state \<Rightarrow> 'step second_pass_state" where
  "called f n ns st = st\<lparr>plan_nodes := ns, calls := calls st @ [Call f n]\<rparr>"

definition answered :: "string \<Rightarrow> nat \<Rightarrow> 'step second_pass_state \<Rightarrow> 'step second_pass_state" where
  "answered f n st = st\<lparr>calls := calls st @ [Applied f n]\<rparr>"

text \<open>
  A \<open>while\<close> loop over a loop body: the body says whether the loop goes on
  (\<open>Next\<close>), is left (\<open>Return\<close>: the condition is false, or a \<open>break\<close>) or throws.
  The loop need not end, so it is a partial function.
\<close>

partial_function (option) while_loop ::
  "('s \<Rightarrow> ('s, 'r) flow) \<Rightarrow> 's \<Rightarrow> (error + 'r) option" where
  "while_loop body st =
     (case body st of
        Next st' \<Rightarrow> while_loop body st'
      | Return r \<Rightarrow> Some (Inr r)
      | Throw e \<Rightarrow> Some (Inl e))"

text \<open>What follows a loop runs when the loop has returned without an exception.\<close>

definition and_then :: "(error + 'x) option \<Rightarrow> ('x \<Rightarrow> (error + 'y) option) \<Rightarrow> (error + 'y) option" where
  "and_then r f = (case r of None \<Rightarrow> None | Some (Inl e) \<Rightarrow> Some (Inl e) | Some (Inr x) \<Rightarrow> f x)"

text \<open>The step every traversal ends its iteration with: push the next child, or pop.\<close>

definition traverse_children ::
  "frame \<Rightarrow> frame list \<Rightarrow> 'step second_pass_state \<Rightarrow> frame list" where
  "traverse_children fr below st =
     (if next_child fr < length (children (plan_nodes st (node fr)))
      then \<lparr>node = children (plan_nodes st (node fr)) ! next_child fr, next_child = 0\<rparr>
           # fr\<lparr>next_child := next_child fr + 1\<rparr> # below
      else below)"

text \<open>First loop: primary key condition, query condition cache, prewhere.\<close>

definition primary_key_iteration ::
  "('a, 'step) collaborators \<Rightarrow> 'a settings_scheme \<Rightarrow> frame list \<times> 'step second_pass_state \<Rightarrow>
   (frame list \<times> 'step second_pass_state, 'step second_pass_state) flow" where
  "primary_key_iteration c optimization_settings = (\<lambda>(stack, st).
     case stack of
       [] \<Rightarrow> Return st
     | fr # rest \<Rightarrow>
         let st1 = called ''optimizePrimaryKeyConditionAndLimit'' (node fr)
                     (optimizePrimaryKeyConditionAndLimit c stack (plan_nodes st)) st;
             st2 = called ''updateQueryConditionCache'' (node fr)
                     (updateQueryConditionCache c stack optimization_settings (plan_nodes st1)) st1
         in if optimize_prewhere optimization_settings
            then (case optimizePrewhere c stack (plan_nodes st2) of
                    ((fr', below), ns) \<Rightarrow>
                      let st3 = called ''optimizePrewhere'' (node fr) ns st2
                      in Next (traverse_children fr' below st3, st3))
            else Next (traverse_children fr rest st2, st2))"

text \<open>Second loop: joins, read in order and distinct in order, on the first visit of a frame.\<close>

definition optimize_joins ::
  "('a, 'step) collaborators \<Rightarrow> 'a settings_scheme \<Rightarrow> nat \<Rightarrow> 'step second_pass_state \<Rightarrow>
   'step second_pass_state" where
  "optimize_joins c optimization_settings n st =
     (case optimizeJoinLogical c n optimization_settings (plan_nodes st) of
        (rhs_estimation, ns1) \<Rightarrow>
          let st1 = called ''optimizeJoinLogical'' n ns1 st
          in case convertLogicalJoinToPhysical c n optimization_settings rhs_estimation
                    (plan_nodes st1) of
               (has_join_logical, ns2) \<Rightarrow>
                 let st2 = called ''convertLogicalJoinToPhysical'' n ns2 st1;
                     st3 = (if \<not> has_join_logical
                            then called ''optimizeJoinLegacy'' n
                                   (optimizeJoinLegacy c n optimization_settings (plan_nodes st2)) st2
                            else answered ''convertLogicalJoinToPhysical'' n st2);
                     st4 = (if read_in_order optimization_settings
                            then called ''optimizeReadInOrder'' n
                                   (optimizeReadInOrder c n (plan_nodes st3)) st3
                            else st3)
                 in if distinct_in_order optimization_settings
                    then called ''optimizeDistinctInOrder'' n
                           (optimizeDistinctInOrder c n (plan_nodes st4)) st4
                    else st4)"

definition join_iteration ::
  "('a, 'step) collaborators \<Rightarrow> 'a settings_scheme \<Rightarrow> frame list \<times> 'step second_pass_state \<Rightarrow>
   (frame list \<times> 'step second_pass_state, 'step second_pass_state) flow" where
  "join_iteration c optimization_settings = (\<lambda>(stack, st).
     case stack of
       [] \<Rightarrow> Return st
     | fr # below \<Rightarrow>
         let st1 = (if next_child fr = 0 then optimize_joins c optimization_settings (node fr) st
                    else st)
         in Next (traverse_children fr below st1, st1))"

text \<open>
  Third loop: a node whose children are done and whose step is a
  \<open>ReadFromLocalParallelReplicaStep\<close> is replaced by its optimized local plan.
\<close>

definition replace_with_local_plan ::
  "('a, 'step) collaborators \<Rightarrow> 'a settings_scheme \<Rightarrow> nat \<Rightarrow> 'step second_pass_state \<Rightarrow>
   'step second_pass_state" where
  "replace_with_local_plan c optimization_settings n st =
     (let st0 = st\<lparr>read_from_local_parallel_replica_plan := True\<rparr>
      in case extractQueryPlan c n (plan_nodes st0) of
           (local_plan, ns1) \<Rightarrow>
             let st1 = called ''extractQueryPlan'' n ns1 st0;
                 optimized = optimize c optimization_settings local_plan;
                 st2 = called ''optimize'' n (plan_nodes st1) st1;
                 st3 = called ''replaceNodeWithPlan'' n
                         (replaceNodeWithPlan c n optimized (plan_nodes st2)) st2
             in if merge_expressions optimization_settings
                then called ''tryMergeExpressions'' n (tryMergeExpressions c n (plan_nodes st3)) st3
                else st3)"

definition local_replica_iteration ::
  "('a, 'step) collaborators \<Rightarrow> 'a settings_scheme \<Rightarrow> frame list \<times> 'step second_pass_state \<Rightarrow>
   (frame list \<times> 'step second_pass_state, 'step second_pass_state) flow" where
  "local_replica_iteration c optimization_settings = (\<lambda>(stack, st).
     case stack of
       [] \<Rightarrow> Return st
     | fr # below \<Rightarrow>
         if next_child fr < length (children (plan_nodes st (node fr)))
         then Next (traverse_children fr below st, st)
         else if is_ReadFromLocalParallelReplicaStep c (step (plan_nodes st (node fr)))
         then Next (below, replace_with_local_plan c optimization_settings (node fr) st)
         else Next (below, st))"

definition remove_sorting_after_local_plan ::
  "('a, 'step) collaborators \<Rightarrow> 'a settings_scheme \<Rightarrow> nat \<Rightarrow> 'step second_pass_state \<Rightarrow>
   'step second_pass_state" where
  "remove_sorting_after_local_plan c optimization_settings root st =
     (if read_from_local_parallel_replica_plan st \<and> remove_redundant_sorting optimization_settings
      then called ''tryRemoveRedundantSorting'' root
             (tryRemoveRedundantSorting c root (plan_nodes st)) st
      else st)"

text \<open>
  Fourth loop: projections. On the first visit of a frame the aggregate projections and
  aggregation in order; once the children are done, the normal projections, after which
  the frame is visited again: \<open>--stack.back().next_child\<close> on a \<open>size_t\<close>, so \<open>0\<close> wraps
  to \<open>2^64 - 1\<close>.
\<close>

definition first_visit_projections ::
  "('a, 'step) collaborators \<Rightarrow> 'a settings_scheme \<Rightarrow> nat \<Rightarrow> 'step second_pass_state \<Rightarrow>
   'step second_pass_state" where
  "first_visit_projections c optimization_settings n st =
     (let st0 = st\<lparr>has_reading_from_mt :=
                     has_reading_from_mt st \<or> is_ReadFromMergeTree c (step (plan_nodes st n))\<rparr>;
          st2 = (if optimize_projection optimization_settings
                 then (case optimizeUseAggregateProjections c n
                              (optimize_use_implicit_projections optimization_settings)
                              (plan_nodes st0) of
                         (applied_projection, ns1) \<Rightarrow>
                           let st1 = called ''optimizeUseAggregateProjections'' n ns1 st0
                           in case applied_projection of
                                None \<Rightarrow> st1
                              | Some projection_name \<Rightarrow>
                                  answered ''optimizeUseAggregateProjections'' n
                                    (st1\<lparr>applied_projection_names :=
                                           insert projection_name (applied_projection_names st1)\<rparr>))
                 else st0)
      in if aggregation_in_order optimization_settings
         then called ''optimizeAggregationInOrder'' n
                (optimizeAggregationInOrder c n (plan_nodes st2)) st2
         else st2)"

definition projection_iteration ::
  "('a, 'step) collaborators \<Rightarrow> 'a settings_scheme \<Rightarrow> frame list \<times> 'step second_pass_state \<Rightarrow>
   (frame list \<times> 'step second_pass_state, 'step second_pass_state) flow" where
  "projection_iteration c optimization_settings = (\<lambda>(stack, st).
     case stack of
       [] \<Rightarrow> Return st
     | fr # below \<Rightarrow>
         let st1 = (if next_child fr = 0
                    then first_visit_projections c optimization_settings (node fr) st
                    else st)
         in if next_child fr < length (children (plan_nodes st1 (node fr)))
            then Next (traverse_children fr below st1, st1)
            else if optimize_projection optimization_settings
            then (case optimizeUseNormalProjections c stack (plan_nodes st1) of
                    (applied_projection, (fr', rest), ns2) \<Rightarrow>
                      let st2 = called ''optimizeUseNormalProjections'' (node fr) ns2 st1
                      in case applied_projection of
                           None \<Rightarrow> Next (rest, st2)
                         | Some projection_name \<Rightarrow>
                             let st3 = answered ''optimizeUseNormalProjections'' (node fr)
                                         (st2\<lparr>applied_projection_names :=
                                                insert projection_name (applied_projection_names st2)\<rparr>)
                             in if max_optimizations_to_apply optimization_settings \<noteq> 0
                                   \<and> max_optimizations_to_apply optimization_settings
                                       < card (applied_projection_names st3)
                                   \<and> \<not> is_explain optimization_settings
                                then Throw (TOO_MANY_QUERY_PLAN_OPTIMIZATIONS
                                              (max_optimizations_to_apply optimization_settings))
                                else Next (fr'\<lparr>next_child := (next_child fr' + 2 ^ 64 - 1) mod 2 ^ 64\<rparr>
                                           # rest, st3))
            else Next (below, st1))"

text \<open>
  Fifth loop, run when \<open>optimize_lazy_materialization\<close> is set: the first call of
  \<open>optimizeLazyMaterialization\<close> that answers \<open>true\<close> leaves the loop.
\<close>

definition lazy_materialization_iteration ::
  "('a, 'step) collaborators \<Rightarrow> 'a settings_scheme \<Rightarrow> nat \<Rightarrow>
   frame list \<times> 'step second_pass_state \<Rightarrow>
   (frame list \<times> 'step second_pass_state, 'step second_pass_state) flow" where
  "lazy_materialization_iteration c optimization_settings root = (\<lambda>(stack, st).
     case stack of
       [] \<Rightarrow> Return st
     | fr # below \<Rightarrow>
         if next_child fr = 0
         then (case optimizeLazyMaterialization c root stack
                      (max_limit_for_lazy_materialization optimization_settings) (plan_nodes st) of
                 (done, ns) \<Rightarrow>
                   let st1 = called ''optimizeLazyMaterialization'' (node fr) ns st
                   in if done then Return (answered ''optimizeLazyMaterialization'' (node fr) st1)
                      else Next (traverse_children fr below st1, st1))
         else Next (traverse_children fr below st, st))"

text \<open>The two checks after the loops, and the two calls that end the pass.\<close>

definition check_projections ::
  "'a settings_scheme \<Rightarrow> 'step second_pass_state \<Rightarrow> error + 'step second_pass_state" where
  "check_projections optimization_settings st =
     (if force_use_projection optimization_settings \<and> has_reading_from_mt st
         \<and> applied_projection_names st = {}
      then Inl PROJECTION_NOT_USED
      else if force_projection_name optimization_settings \<noteq> [] \<and> has_reading_from_mt st
         \<and> force_projection_name optimization_settings \<notin> applied_projection_names st
      then Inl (INCORRECT_DATA (force_projection_name optimization_settings))
      else Inr st)"

definition apply_order_and_shards ::
  "('a, 'step) collaborators \<Rightarrow> 'a settings_scheme \<Rightarrow> nat \<Rightarrow> 'step second_pass_state \<Rightarrow>
   'step second_pass_state" where
  "apply_order_and_shards c optimization_settings root st =
     (let st1 = called ''applyOrder'' root (applyOrder c optimization_settings root (plan_nodes st)) st
      in if query_plan_join_shard_by_pk_ranges optimization_settings
         then called ''optimizeJoinByShards'' root (optimizeJoinByShards c root (plan_nodes st1)) st1
         else st1)"

text \<open>
  The loops of \<open>optimizeTreeSecondPass\<close> in their order, each started on a stack that
  holds the root, and \<open>optimizeTreeSecondPass\<close> itself: the loops, the checks, the calls
  that end the pass. The result is the error thrown or the local state at the end.
\<close>

definition second_pass_loops ::
  "('a, 'step) collaborators \<Rightarrow> 'a settings_scheme \<Rightarrow> nat \<Rightarrow> 'step nodes \<Rightarrow>
   (error + 'step second_pass_state) option" where
  "second_pass_loops c optimization_settings root ns =
     and_then (while_loop (primary_key_iteration c optimization_settings)
                 ([\<lparr>node = root, next_child = 0\<rparr>],
                  \<lparr>plan_nodes = ns, applied_projection_names = {}, has_reading_from_mt = False,
                   read_from_local_parallel_replica_plan = False, calls = []\<rparr>))
     (\<lambda>st1. and_then (while_loop (join_iteration c optimization_settings)
                 ([\<lparr>node = root, next_child = 0\<rparr>],
                  called ''calculateHashTableCacheKeys'' root
                    (calculateHashTableCacheKeys c root (plan_nodes st1)) st1))
     (\<lambda>st2. and_then (while_loop (local_replica_iteration c optimization_settings)
                 ([\<lparr>node = root, next_child = 0\<rparr>], st2))
     (\<lambda>st3. and_then (while_loop (projection_iteration c optimization_settings)
                 ([\<lparr>node = root, next_child = 0\<rparr>],
                  remove_sorting_after_local_plan c optimization_settings root st3))
     (\<lambda>st4. if optimize_lazy_materialization optimization_settings
            then while_loop (lazy_materialization_iteration c optimization_settings root)
                   ([\<lparr>node = root, next_child = 0\<rparr>], st4)
            else Some (Inr st4)))))"

definition optimizeTreeSecondPass ::
  "('a, 'step) collaborators \<Rightarrow> 'a settings_scheme \<Rightarrow> nat \<Rightarrow> 'step nodes \<Rightarrow>
   (error + 'step second_pass_state) option" where
  "optimizeTreeSecondPass c optimization_settings root ns =
     and_then (second_pass_loops c optimization_settings root ns)
       (\<lambda>st. case check_projections optimization_settings st of
                Inl e \<Rightarrow> Some (Inl e)
              | Inr st' \<Rightarrow> Some (Inr (apply_order_and_shards c optimization_settings root st')))"

section \<open>The vocabulary of the theorems\<close>

subsection \<open>Tree shapes and visit orders\<close>

text \<open>
  The shape of the plan below a node, used to state what the traversal does: a node
  address with the shapes below its children, in order. \<open>is_tree ns t\<close> says that the
  arena \<open>ns\<close> has shape \<open>t\<close> at \<open>root_of t\<close>; a shape is finite, so the plan below a
  node that has a shape is finite and acyclic.
\<close>

datatype shape = Shape nat "shape list"

fun root_of :: "shape \<Rightarrow> nat" where
  "root_of (Shape n ts) = n"

fun is_tree :: "'step nodes \<Rightarrow> shape \<Rightarrow> bool" where
  "is_tree ns (Shape n ts) = (children (ns n) = map root_of ts \<and> (\<forall>t \<in> set ts. is_tree ns t))"

text \<open>
  The post-order of a shape cut at a depth limit: with limit \<open>1\<close> only the root, with
  limit \<open>d > 1\<close> the children with limit \<open>d - 1\<close> and then the root, with limit \<open>0\<close>
  the whole shape (on naturals \<open>0 - 1 = 0\<close>).
\<close>

fun visit_order :: "nat \<Rightarrow> shape \<Rightarrow> nat list" where
  "visit_order d (Shape n ts) =
     (if d = 1 then [n] else concat (map (visit_order (d - 1)) ts) @ [n])"

definition postorder :: "shape \<Rightarrow> nat list" where
  "postorder t = visit_order 0 t"

subsection \<open>Rules, visits and the budget\<close>

text \<open>
  In every arena that satisfies \<open>Q\<close>, every enabled, initialised rule of the registry,
  applied at a node of \<open>N\<close>, reports update depth \<open>0\<close> and leaves an arena that
  satisfies \<open>Q\<close>.
\<close>

definition reports_no_change ::
  "('step nodes \<Rightarrow> bool) \<Rightarrow> 'a settings_scheme \<Rightarrow> ('a, 'step) optimization list \<Rightarrow>
   extra_settings \<Rightarrow> nat set \<Rightarrow> bool" where
  "reports_no_change Q optimization_settings optimizations extra N =
     (\<forall>ns n optimization rule.
        Q ns \<longrightarrow> n \<in> N \<longrightarrow> optimization \<in> set optimizations \<longrightarrow>
        is_enabled optimization optimization_settings \<longrightarrow>
        apply_fn optimization = Some rule \<longrightarrow>
        fst (rule n extra ns) = 0 \<and> Q (snd (rule n extra ns)))"

text \<open>
  The update depths that the rules applied during one visit of node \<open>n\<close> report, in
  registry order; the list ends where the budget check stops the visit.
\<close>

fun reported_depths ::
  "'a settings_scheme \<Rightarrow> extra_settings \<Rightarrow> nat \<Rightarrow> ('a, 'step) optimization list \<Rightarrow>
   nat \<times> 'step nodes \<Rightarrow> nat list" where
  "reported_depths optimization_settings extra n [] (applied, ns) = []"
| "reported_depths optimization_settings extra n (optimization # rest) (applied, ns) =
     (if \<not> is_enabled optimization optimization_settings
      then reported_depths optimization_settings extra n rest (applied, ns)
      else case apply_fn optimization of
        None \<Rightarrow> reported_depths optimization_settings extra n rest (applied, ns)
      | Some rule \<Rightarrow>
          if max_optimizations_to_apply optimization_settings \<noteq> 0
             \<and> max_optimizations_to_apply optimization_settings < applied
          then []
          else (case rule n extra ns of (update_depth, ns') \<Rightarrow>
                  update_depth # reported_depths optimization_settings extra n rest
                    ((if update_depth \<noteq> 0 then applied + 1 else applied), ns')))"



text \<open>
  The run ends at the budget check with \<open>applied\<close> rule applications counted: in explain
  mode it returns with that counter, otherwise it throws the budget error.
\<close>

definition stops_at_budget ::
  "'a settings_scheme \<Rightarrow> nat \<Rightarrow> (error + 'step first_pass_state) option \<Rightarrow> bool" where
  "stops_at_budget optimization_settings applied r =
     (if is_explain optimization_settings
      then \<exists>st. r = Some (Inr st) \<and> total_applied_optimizations st = applied
      else r = Some (Inl (TOO_MANY_QUERY_PLAN_OPTIMIZATIONS
                            (max_optimizations_to_apply optimization_settings))))"

text \<open>
  The state of the loop after \<open>n\<close> iterations, if the loop runs that long: \<open>None\<close> when
  it has ended before, with its stack empty, by the return of explain mode or by the
  budget error. It serves to speak of what a run reaches whether or not it ever returns.
\<close>

fun first_pass_after ::
  "nat \<Rightarrow> 'a settings_scheme \<Rightarrow> ('a, 'step) optimization list \<Rightarrow> extra_settings \<Rightarrow>
   'step first_pass_state \<Rightarrow> 'step first_pass_state option" where
  "first_pass_after 0 optimization_settings optimizations extra st = Some st"
| "first_pass_after (Suc n) optimization_settings optimizations extra st =
     (case stack st of
        [] \<Rightarrow> None
      | fr # below \<Rightarrow>
          (case first_pass_iteration optimization_settings optimizations extra fr below st of
             Next st' \<Rightarrow> first_pass_after n optimization_settings optimizations extra st'
           | Return st' \<Rightarrow> None
           | Throw e \<Rightarrow> None))"





subsection \<open>The call log of the second pass\<close>

text \<open>
  Reading the call log: the collaborator an entry names, the entries that name a given
  collaborator, and the entries that record an application of the lazy materialization.
\<close>

definition callee :: "call \<Rightarrow> string" where
  "callee c = (case c of Call f n \<Rightarrow> f | Applied f n \<Rightarrow> f)"

definition entries :: "string \<Rightarrow> call list \<Rightarrow> call list" where
  "entries f log = filter (\<lambda>c. callee c = f) log"

definition lazy_applications :: "call list \<Rightarrow> call list" where
  "lazy_applications log =
     filter (\<lambda>c. case c of Applied f n \<Rightarrow> f = ''optimizeLazyMaterialization'' | Call f n \<Rightarrow> False) log"


section \<open>Example inputs\<close>

text \<open>Concrete settings, arenas and rules on which the theorems below are instantiated.\<close>

definition example_settings :: settings where
  "example_settings =
     \<lparr>optimize_plan = True, max_optimizations_to_apply = 0, is_explain = False,
      max_limit_for_vector_search_queries = 0, vector_search_filter_strategy = undefined,
      use_index_for_in_with_subqueries_max_values = 0, network_transfer_limits = undefined,
      optimize_prewhere = False, read_in_order = False, distinct_in_order = False,
      merge_expressions = False, remove_redundant_sorting = False,
      optimize_projection = False, optimize_use_implicit_projections = False,
      aggregation_in_order = False, optimize_lazy_materialization = False,
      max_limit_for_lazy_materialization = 0, force_use_projection = False,
      force_projection_name = [], query_plan_join_shard_by_pk_ranges = False\<rparr>"

text \<open>A plan of three nodes: node \<open>0\<close> with the leaves \<open>1\<close> and \<open>2\<close>; steps are counters.\<close>

definition example_nodes :: "nat nodes" where
  "example_nodes =
     (\<lambda>n. if n = 0 then \<lparr>step = 0, children = [1, 2]\<rparr> else \<lparr>step = 0, children = []\<rparr>)"

definition example_shape :: shape where
  "example_shape = Shape 0 [Shape 1 [], Shape 2 []]"

text \<open>
  A rule that changes a node's step as long as it is below \<open>bound\<close>, reporting depth \<open>1\<close>,
  and reports \<open>0\<close> from then on.
\<close>

definition count_rule :: "nat \<Rightarrow> nat \<Rightarrow> extra_settings \<Rightarrow> nat nodes \<Rightarrow> nat \<times> nat nodes" where
  "count_rule bound n extra ns =
     (if step (ns n) < bound then (1, ns(n := (ns n)\<lparr>step := step (ns n) + 1\<rparr>)) else (0, ns))"

definition count_optimization :: "nat \<Rightarrow> (unit, nat) optimization" where
  "count_optimization bound = \<lparr>apply_fn = Some (count_rule bound), is_enabled = (\<lambda>s. True)\<rparr>"



text \<open>Observations of a result: the counter, and the steps of given nodes in the final arena.\<close>

definition result_counter :: "(error + 'step first_pass_state) option \<Rightarrow> (error + nat) option" where
  "result_counter r = map_option (map_sum id total_applied_optimizations) r"

definition result_steps ::
  "nat list \<Rightarrow> (error + 'step first_pass_state) option \<Rightarrow> (error + 'step list) option" where
  "result_steps ms r = map_option (map_sum id (\<lambda>st. map (\<lambda>n. step (nodes st n)) ms)) r"





text \<open>A rule that changes the node at every application and never reports \<open>0\<close>.\<close>

definition always_rule :: "nat \<Rightarrow> extra_settings \<Rightarrow> nat nodes \<Rightarrow> nat \<times> nat nodes" where
  "always_rule n extra ns = (1, ns(n := (ns n)\<lparr>step := step (ns n) + 1\<rparr>))"

definition always_optimization :: "(unit, nat) optimization" where
  "always_optimization = \<lparr>apply_fn = Some always_rule, is_enabled = (\<lambda>s. True)\<rparr>"

text \<open>
  Collaborators that leave the plan alone, except that a step \<open>2\<close> (the local replica
  read) is replaced by step \<open>0\<close>; step \<open>1\<close> is the merge tree read. A plan with both
  kinds of leaf. A plan and a normal-projection callee that applies three projections,
  one per call, at the leaf, each time handing back the stack cut to the parent frame.
\<close>

definition idle_collaborators :: "(unit, nat) collaborators" where
  "idle_collaborators =
     \<lparr>optimizePrimaryKeyConditionAndLimit = (\<lambda>stack ns. ns),
      updateQueryConditionCache = (\<lambda>stack s ns. ns),
      optimizePrewhere = (\<lambda>stack ns. ((hd stack, tl stack), ns)),
      calculateHashTableCacheKeys = (\<lambda>root ns. ns),
      optimizeJoinLogical = (\<lambda>n s ns. (undefined, ns)),
      convertLogicalJoinToPhysical = (\<lambda>n s e ns. (False, ns)),
      optimizeJoinLegacy = (\<lambda>n s ns. ns),
      optimizeReadInOrder = (\<lambda>n ns. ns),
      optimizeDistinctInOrder = (\<lambda>n ns. ns),
      is_ReadFromLocalParallelReplicaStep = (\<lambda>s. s = 2),
      extractQueryPlan = (\<lambda>n ns. (undefined, ns)),
      optimize = (\<lambda>s p. p),
      replaceNodeWithPlan = (\<lambda>n p ns. ns(n := (ns n)\<lparr>step := 0\<rparr>)),
      tryMergeExpressions = (\<lambda>n ns. ns),
      tryRemoveRedundantSorting = (\<lambda>n ns. ns),
      is_ReadFromMergeTree = (\<lambda>s. s = 1),
      optimizeUseAggregateProjections = (\<lambda>n b ns. (None, ns)),
      optimizeAggregationInOrder = (\<lambda>n ns. ns),
      optimizeUseNormalProjections = (\<lambda>stack ns. (None, (hd stack, tl stack), ns)),
      optimizeLazyMaterialization = (\<lambda>root stack limit ns. (False, ns)),
      applyOrder = (\<lambda>s root ns. ns),
      optimizeJoinByShards = (\<lambda>root ns. ns)\<rparr>"

definition scan_nodes :: "nat nodes" where
  "scan_nodes =
     (\<lambda>n. if n = 0 then \<lparr>step = 0, children = [1, 2]\<rparr>
          else if n = 1 then \<lparr>step = 1, children = []\<rparr>
          else if n = 2 then \<lparr>step = 2, children = []\<rparr>
          else \<lparr>step = 0, children = []\<rparr>)"

definition projection_nodes :: "nat nodes" where
  "projection_nodes =
     (\<lambda>n. if n = 0 then \<lparr>step = 0, children = [1]\<rparr>
          else if n = 1 then \<lparr>step = 10, children = []\<rparr>
          else \<lparr>step = 0, children = []\<rparr>)"




text \<open>A lazy materialization that succeeds at node \<open>1\<close>.\<close>

definition lazy_collaborators :: "(unit, nat) collaborators" where
  "lazy_collaborators =
     idle_collaborators\<lparr>optimizeLazyMaterialization := (\<lambda>root stk limit ns. (node (hd stk) = 1, ns))\<rparr>"




definition sorting_collaborators :: "(unit, nat) collaborators" where
  "sorting_collaborators =
     idle_collaborators\<lparr>tryRemoveRedundantSorting := (\<lambda>n ns. ns(n := (ns n)\<lparr>step := 7\<rparr>))\<rparr>"

section \<open>Properties of the first pass\<close>

subsection \<open>The rule loop and the stable traversal\<close>

lemma apply_optimizations_skip:
  "\<not> is_enabled opt s \<or> apply_fn opt = None \<Longrightarrow>
   apply_optimizations s ex n (opt # opts) acc = apply_optimizations s ex n opts acc"
  by (cases acc) auto

lemma apply_optimizations_exceeded:
  "is_enabled opt s \<Longrightarrow> apply_fn opt = Some rule \<Longrightarrow>
   max_optimizations_to_apply s \<noteq> 0 \<Longrightarrow> max_optimizations_to_apply s < a \<Longrightarrow>
   apply_optimizations s ex n (opt # opts) (m, a, ns) =
     (if is_explain s then Return (a, ns)
      else Throw (TOO_MANY_QUERY_PLAN_OPTIMIZATIONS (max_optimizations_to_apply s)))"
  by auto

lemma apply_optimizations_rule:
  "is_enabled opt s \<Longrightarrow> apply_fn opt = Some rule \<Longrightarrow>
   max_optimizations_to_apply s = 0 \<or> a \<le> max_optimizations_to_apply s \<Longrightarrow>
   rule n ex ns = (u, x) \<Longrightarrow>
   apply_optimizations s ex n (opt # opts) (m, a, ns) =
     apply_optimizations s ex n opts (max m u, (if u \<noteq> 0 then a + 1 else a), x)"
  by auto

lemma reports_no_changeD:
  "reports_no_change Q s opts ex N \<Longrightarrow> Q ns \<Longrightarrow> n \<in> N \<Longrightarrow> optimization \<in> set opts \<Longrightarrow>
   is_enabled optimization s \<Longrightarrow> apply_fn optimization = Some rule \<Longrightarrow>
   fst (rule n ex ns) = 0 \<and> Q (snd (rule n ex ns))"
  unfolding reports_no_change_def by blast

lemma reports_no_change_tl:
  "reports_no_change Q s (opt # opts) ex N \<Longrightarrow> reports_no_change Q s opts ex N"
  unfolding reports_no_change_def by simp

lemma reports_no_change_mono:
  "reports_no_change Q s opts ex N \<Longrightarrow> M \<subseteq> N \<Longrightarrow> reports_no_change Q s opts ex M"
  unfolding reports_no_change_def by blast

lemma apply_optimizations_stable:
  assumes budget: "max_optimizations_to_apply s = 0 \<or> applied \<le> max_optimizations_to_apply s"
  shows "reports_no_change Q s opts ex {n} \<Longrightarrow> Q ns \<Longrightarrow>
    \<exists>ns'. Q ns' \<and> apply_optimizations s ex n opts (m, applied, ns) = Next (m, applied, ns')"
proof (induction opts arbitrary: ns)
  case Nil
  then show ?case by simp
next
  case (Cons opt opts)
  have rest: "\<exists>ns'. Q ns' \<and> apply_optimizations s ex n opts (m, applied, x) = Next (m, applied, ns')"
    if "Q x" for x
    using Cons.IH [OF reports_no_change_tl [OF Cons.prems(1)] that] .
  show ?case
  proof (cases "is_enabled opt s")
    case False
    then show ?thesis using rest [OF Cons.prems(2)] by simp
  next
    case True
    show ?thesis
    proof (cases "apply_fn opt")
      case None
      then show ?thesis using True rest [OF Cons.prems(2)] by simp
    next
      case (Some rule)
      have r: "fst (rule n ex ns) = 0 \<and> Q (snd (rule n ex ns))"
        using reports_no_changeD [OF Cons.prems(1) Cons.prems(2), of n opt rule] True Some by simp
      obtain u x where ux: "rule n ex ns = (u, x)" by (cases "rule n ex ns")
      with r have "u = 0" "Q x" by simp_all
      then show ?thesis using True Some ux budget rest [of x] by auto
    qed
  qed
qed

lemma loop_push:
  "depth_limit fr \<noteq> 1 \<Longrightarrow> next_child fr < length (children (ns (node fr))) \<Longrightarrow>
   first_pass_loop s opts ex \<lparr>stack = fr # below, total_applied_optimizations = a, nodes = ns, visited = v\<rparr> =
   first_pass_loop s opts ex
     \<lparr>stack = \<lparr>node = children (ns (node fr)) ! next_child fr, next_child = 0,
               depth_limit = (if depth_limit fr \<noteq> 0 then depth_limit fr - 1 else 0)\<rparr>
             # fr\<lparr>next_child := next_child fr + 1\<rparr> # below,
      total_applied_optimizations = a, nodes = ns, visited = v\<rparr>"
  by (subst first_pass_loop.simps) (simp add: first_pass_iteration_def)

lemma loop_pop_stable:
  assumes "depth_limit fr = 1 \<or> length (children (ns (node fr))) \<le> next_child fr"
    and step: "reports_no_change Q s opts ex {node fr}"
    and budget: "max_optimizations_to_apply s = 0 \<or> a \<le> max_optimizations_to_apply s"
    and inv: "Q ns"
  shows "\<exists>ns'. Q ns' \<and>
   first_pass_loop s opts ex \<lparr>stack = fr # below, total_applied_optimizations = a, nodes = ns, visited = v\<rparr> =
   first_pass_loop s opts ex
     \<lparr>stack = below, total_applied_optimizations = a, nodes = ns', visited = v @ [node fr]\<rparr>"
proof -
  obtain ns' where ns': "Q ns'"
    "apply_optimizations s ex (node fr) opts (0, a, ns) = Next (0, a, ns')"
    using apply_optimizations_stable [OF budget step inv] by blast
  have "first_pass_loop s opts ex \<lparr>stack = fr # below, total_applied_optimizations = a, nodes = ns, visited = v\<rparr> =
   first_pass_loop s opts ex
     \<lparr>stack = below, total_applied_optimizations = a, nodes = ns', visited = v @ [node fr]\<rparr>"
    using assms(1) ns'(2)
    by (subst first_pass_loop.simps) (auto simp add: first_pass_iteration_def)
  with ns'(1) show ?thesis by blast
qed

lemma traverse_stable:
  assumes step: "reports_no_change Q s opts ex N"
    and budget: "max_optimizations_to_apply s = 0 \<or> a \<le> max_optimizations_to_apply s"
  shows "(\<And>ns'. Q ns' \<Longrightarrow> is_tree ns' (Shape n ts)) \<Longrightarrow> set (visit_order d (Shape n ts)) \<subseteq> N \<Longrightarrow>
   Q ns \<Longrightarrow>
   \<exists>ns'. Q ns' \<and>
   first_pass_loop s opts ex
     \<lparr>stack = \<lparr>node = n, next_child = k, depth_limit = d\<rparr> # below,
      total_applied_optimizations = a, nodes = ns, visited = v\<rparr> =
   first_pass_loop s opts ex
     \<lparr>stack = below, total_applied_optimizations = a, nodes = ns',
      visited = v @ (if d = 1 then [] else concat (map (visit_order (d - 1)) (drop k ts))) @ [n]\<rparr>"
proof (induction "Shape n ts" arbitrary: n ts d k below v ns)
  case (Shape n ts)
  have ch: "children (x n) = map root_of ts" if "Q x" for x
    using Shape.prems(1) [OF that] by simp
  have nN: "{n} \<subseteq> N" using Shape.prems(2) by (auto split: if_splits)
  have pop: "\<exists>ns'. Q ns' \<and>
     first_pass_loop s opts ex
       \<lparr>stack = \<lparr>node = n, next_child = k, depth_limit = d\<rparr> # below,
        total_applied_optimizations = a, nodes = x, visited = v\<rparr> =
     first_pass_loop s opts ex
       \<lparr>stack = below, total_applied_optimizations = a, nodes = ns', visited = v @ [n]\<rparr>"
    if "Q x" "d = 1 \<or> length ts \<le> k" for x k v
    using loop_pop_stable [of "\<lparr>node = n, next_child = k, depth_limit = d\<rparr>" x Q s opts ex a below v]
      reports_no_change_mono [OF step nN] budget that ch [OF that(1)] by simp
  show ?case
  proof (cases "d = 1")
    case True
    then show ?thesis using pop [OF Shape.prems(3)] by simp
  next
    case False
    have "\<exists>ns'. Q ns' \<and> first_pass_loop s opts ex
       \<lparr>stack = \<lparr>node = n, next_child = k, depth_limit = d\<rparr> # below,
        total_applied_optimizations = a, nodes = x, visited = v\<rparr> =
     first_pass_loop s opts ex
       \<lparr>stack = below, total_applied_optimizations = a, nodes = ns',
        visited = v @ concat (map (visit_order (d - 1)) (drop k ts)) @ [n]\<rparr>" if "Q x" for k v x
      using that
    proof (induction "length ts - k" arbitrary: k v x)
      case 0
      then show ?case using pop [of x k v] by simp
    next
      case (Suc m)
      then have k: "k < length ts" by simp
      let ?c = "ts ! k"
      obtain cn cts where c: "?c = Shape cn cts" by (cases ?c)
      have cin: "?c \<in> set ts" using k by simp
      have ctree: "is_tree y (Shape cn cts)" if "Q y" for y
        using Shape.prems(1) [OF that] cin c by auto
      have vo: "visit_order d (Shape n ts) = concat (map (visit_order (d - 1)) ts) @ [n]"
        using False by simp
      have csub: "set (visit_order (d - 1) (Shape cn cts)) \<subseteq> N"
        using Shape.prems(2) [unfolded vo] cin c by (auto simp del: visit_order.simps)
      have croot: "children (x n) ! k = cn" using ch [OF Suc.prems] k c by simp
      have step1: "first_pass_loop s opts ex
         \<lparr>stack = \<lparr>node = n, next_child = k, depth_limit = d\<rparr> # below,
          total_applied_optimizations = a, nodes = x, visited = v\<rparr> =
        first_pass_loop s opts ex
         \<lparr>stack = \<lparr>node = cn, next_child = 0, depth_limit = d - 1\<rparr>
                   # \<lparr>node = n, next_child = k + 1, depth_limit = d\<rparr> # below,
          total_applied_optimizations = a, nodes = x, visited = v\<rparr>"
        using loop_push [of "\<lparr>node = n, next_child = k, depth_limit = d\<rparr>" x s opts ex below a v]
          False k ch [OF Suc.prems] croot by simp
      obtain y where y: "Q y" "first_pass_loop s opts ex
         \<lparr>stack = \<lparr>node = cn, next_child = 0, depth_limit = d - 1\<rparr>
                   # \<lparr>node = n, next_child = k + 1, depth_limit = d\<rparr> # below,
          total_applied_optimizations = a, nodes = x, visited = v\<rparr> =
        first_pass_loop s opts ex
         \<lparr>stack = \<lparr>node = n, next_child = k + 1, depth_limit = d\<rparr> # below,
          total_applied_optimizations = a, nodes = y, visited = v @ visit_order (d - 1) ?c\<rparr>"
        using Shape.hyps [OF cin [unfolded c] ctree csub Suc.prems,
            of 0 "\<lparr>node = n, next_child = k + 1, depth_limit = d\<rparr> # below" v]
        by (auto simp add: c)
      have m: "m = length ts - (k + 1)" using Suc.hyps(2) by simp
      obtain z where z: "Q z" "first_pass_loop s opts ex
         \<lparr>stack = \<lparr>node = n, next_child = k + 1, depth_limit = d\<rparr> # below,
          total_applied_optimizations = a, nodes = y, visited = v @ visit_order (d - 1) ?c\<rparr> =
        first_pass_loop s opts ex
       \<lparr>stack = below, total_applied_optimizations = a, nodes = z,
        visited = (v @ visit_order (d - 1) ?c) @ concat (map (visit_order (d - 1)) (drop (k + 1) ts)) @ [n]\<rparr>"
        using Suc.hyps(1) [OF m y(1), of "v @ visit_order (d - 1) ?c"] by auto
      have "drop k ts = ?c # drop (k + 1) ts" using k by (simp add: Cons_nth_drop_Suc)
      then show ?case using step1 y z by (intro exI [of _ z]) simp
    qed
    then show ?thesis using False Shape.prems(3) by simp
  qed
qed

lemma loop_empty:
  "first_pass_loop s opts ex \<lparr>stack = [], total_applied_optimizations = a, nodes = ns, visited = v\<rparr> =
   Some (Inr \<lparr>stack = [], total_applied_optimizations = a, nodes = ns, visited = v\<rparr>)"
  by (subst first_pass_loop.simps) simp

lemma traverse_stable_root:
  assumes step: "reports_no_change Q s opts ex (set (postorder t))"
    and tree: "\<And>ns'. Q ns' \<Longrightarrow> is_tree ns' t"
    and inv: "Q ns"
  shows "\<exists>ns'. Q ns' \<and>
    first_pass_loop s opts ex
      \<lparr>stack = [\<lparr>node = root_of t, next_child = 0, depth_limit = 0\<rparr>],
       total_applied_optimizations = 0, nodes = ns, visited = []\<rparr> =
    Some (Inr \<lparr>stack = [], total_applied_optimizations = 0, nodes = ns', visited = postorder t\<rparr>)"
proof -
  obtain n ts where t: "t = Shape n ts" by (cases t)
  have "\<exists>ns'. Q ns' \<and>
    first_pass_loop s opts ex
      \<lparr>stack = \<lparr>node = n, next_child = 0, depth_limit = 0\<rparr> # [],
       total_applied_optimizations = 0, nodes = ns, visited = []\<rparr> =
    first_pass_loop s opts ex
      \<lparr>stack = [], total_applied_optimizations = 0, nodes = ns',
       visited = [] @ (if (0::nat) = 1 then [] else concat (map (visit_order (0 - 1)) (drop 0 ts))) @ [n]\<rparr>"
    using step tree inv unfolding t postorder_def
    by (intro traverse_stable [where N = "set (visit_order 0 (Shape n ts))"]) simp_all
  then show ?thesis by (auto simp add: t postorder_def loop_empty)
qed







lemma apply_optimizations_max:
  "apply_optimizations s ex n opts (m0, a, ns) = Next (m, a', ns') \<Longrightarrow>
   m = Max (set (m0 # reported_depths s ex n opts (a, ns)))"
proof (induction opts arbitrary: m0 a ns)
  case Nil
  then show ?case by simp
next
  case (Cons opt opts)
  show ?case
  proof (cases "is_enabled opt s")
    case False
    then show ?thesis using Cons by simp
  next
    case True
    show ?thesis
    proof (cases "apply_fn opt")
      case None
      then show ?thesis using True Cons by simp
    next
      case (Some rule)
      obtain u x where ux: "rule n ex ns = (u, x)" by (cases "rule n ex ns")
      have nb: "max_optimizations_to_apply s = 0 \<or> a \<le> max_optimizations_to_apply s"
        using Cons.prems apply_optimizations_exceeded [OF True Some, of a ex n opts m0 ns]
        by (cases "max_optimizations_to_apply s = 0 \<or> a \<le> max_optimizations_to_apply s")
           (auto simp del: apply_optimizations.simps split: if_splits)
      have unfold: "apply_optimizations s ex n (opt # opts) (m0, a, ns) =
          apply_optimizations s ex n opts (max m0 u, (if u \<noteq> 0 then a + 1 else a), x)"
        using apply_optimizations_rule [OF True Some nb ux] .
      have "apply_optimizations s ex n opts (max m0 u, (if u \<noteq> 0 then a + 1 else a), x) =
          Next (m, a', ns')"
        using Cons.prems unfolding unfold .
      from Cons.IH [OF this]
      have "m = Max (set (max m0 u # reported_depths s ex n opts ((if u \<noteq> 0 then a + 1 else a), x)))" .
      also have "\<dots> = Max (set (m0 # u # reported_depths s ex n opts ((if u \<noteq> 0 then a + 1 else a), x)))"
        unfolding Max.set_eq_fold by (simp add: max.commute)
      finally have "m = Max (set (m0 # u # reported_depths s ex n opts ((if u \<noteq> 0 then a + 1 else a), x)))" .
      moreover have "reported_depths s ex n (opt # opts) (a, ns) =
          u # reported_depths s ex n opts ((if u \<noteq> 0 then a + 1 else a), x)"
        using True Some ux nb by auto
      ultimately show ?thesis by simp
    qed
  qed
qed

subsection \<open>Stable runs\<close>






subsection \<open>The budget\<close>

lemma apply_optimizations_all_exceeded:
  assumes "max_optimizations_to_apply s \<noteq> 0" "max_optimizations_to_apply s < a"
  shows "\<exists>opt \<in> set opts. is_enabled opt s \<and> apply_fn opt \<noteq> None \<Longrightarrow>
    apply_optimizations s ex n opts (m, a, ns) =
      (if is_explain s then Return (a, ns)
       else Throw (TOO_MANY_QUERY_PLAN_OPTIMIZATIONS (max_optimizations_to_apply s)))"
proof (induction opts)
  case Nil
  then show ?case by simp
next
  case (Cons opt opts)
  show ?case
  proof (cases "is_enabled opt s \<and> apply_fn opt \<noteq> None")
    case True
    then obtain rule where "apply_fn opt = Some rule" by auto
    with True assms show ?thesis using apply_optimizations_exceeded [of opt s rule a ex n opts m ns] by simp
  next
    case False
    then have "apply_optimizations s ex n (opt # opts) (m, a, ns) = apply_optimizations s ex n opts (m, a, ns)"
      by (intro apply_optimizations_skip) auto
    moreover have "\<exists>opt \<in> set opts. is_enabled opt s \<and> apply_fn opt \<noteq> None"
      using Cons.prems False by auto
    ultimately show ?thesis using Cons.IH by simp
  qed
qed

lemma exit_on_exceeded:
  assumes "max_optimizations_to_apply s \<noteq> 0" "max_optimizations_to_apply s < a"
    and "\<exists>opt \<in> set opts. is_enabled opt s \<and> apply_fn opt \<noteq> None"
  shows "depth_limit fr = Suc d \<Longrightarrow>
    stops_at_budget s a (first_pass_loop s opts ex
        \<lparr>stack = fr # below, total_applied_optimizations = a, nodes = ns, visited = v\<rparr>)"
proof (induction d arbitrary: fr below v)
  case 0
  then show ?case
    using apply_optimizations_all_exceeded [OF assms, of ex "node fr" 0 ns]
    by (subst first_pass_loop.simps) (auto simp add: first_pass_iteration_def stops_at_budget_def)
next
  case (Suc d)
  show ?case
  proof (cases "next_child fr < length (children (ns (node fr)))")
    case True
    let ?child = "\<lparr>node = children (ns (node fr)) ! next_child fr, next_child = 0,
               depth_limit = (if depth_limit fr \<noteq> 0 then depth_limit fr - 1 else 0)\<rparr>"
    have "depth_limit ?child = Suc d" using Suc.prems by simp
    from Suc.IH [OF this, of "fr\<lparr>next_child := next_child fr + 1\<rparr> # below" v]
    show ?thesis using loop_push [of fr ns s opts ex below a v] True Suc.prems by simp
  next
    case False
    then show ?thesis
      using apply_optimizations_all_exceeded [OF assms, of ex "node fr" 0 ns]
      by (subst first_pass_loop.simps) (auto simp add: first_pass_iteration_def stops_at_budget_def)
  qed
qed

lemma apply_optimizations_no_rule:
  "\<not> (\<exists>opt \<in> set opts. is_enabled opt s \<and> apply_fn opt \<noteq> None) \<Longrightarrow>
   apply_optimizations s ex n opts acc = Next acc"
proof (induction opts)
  case Nil
  then show ?case by simp
next
  case (Cons opt opts)
  then have "apply_optimizations s ex n (opt # opts) acc = apply_optimizations s ex n opts acc"
    by (intro apply_optimizations_skip) auto
  then show ?case using Cons by simp
qed

lemma apply_optimizations_unlimited:
  "max_optimizations_to_apply s = 0 \<Longrightarrow> \<exists>r. apply_optimizations s ex n opts acc = Next r"
proof (induction opts arbitrary: acc)
  case Nil
  then show ?case by (cases acc) auto
next
  case (Cons opt opts)
  obtain m a ns where acc: "acc = (m, a, ns)" by (cases acc) auto
  show ?case
  proof (cases "is_enabled opt s \<and> apply_fn opt \<noteq> None")
    case False
    then have "apply_optimizations s ex n (opt # opts) acc = apply_optimizations s ex n opts acc"
      by (intro apply_optimizations_skip) auto
    then show ?thesis using Cons by simp
  next
    case True
    then obtain rule where r: "is_enabled opt s" "apply_fn opt = Some rule" by auto
    obtain u x where ux: "rule n ex ns = (u, x)" by (cases "rule n ex ns")
    show ?thesis
      unfolding acc apply_optimizations_rule [OF r disjI1 [OF Cons.prems] ux]
      using Cons.IH [OF Cons.prems] .
  qed
qed

lemma apply_optimizations_budget_sim:
  assumes K: "max_optimizations_to_apply s = K" "0 < K"
    and s0: "max_optimizations_to_apply s0 = 0"
  shows "\<forall>opt \<in> set opts. is_enabled opt s0 = is_enabled opt s \<Longrightarrow>
    a \<le> K + 1 \<Longrightarrow> (a = K + 1 \<longrightarrow> m \<noteq> 0) \<Longrightarrow>
    apply_optimizations s0 ex n opts (m, a, ns) = Next (m', a', ns') \<Longrightarrow>
    (apply_optimizations s ex n opts (m, a, ns) = Next (m', a', ns')
       \<and> a' \<le> K + 1 \<and> (a' = K + 1 \<longrightarrow> m' \<noteq> 0))
    \<or> (\<exists>x. apply_optimizations s ex n opts (m, a, ns) =
          (if is_explain s then Return (K + 1, x)
           else Throw (TOO_MANY_QUERY_PLAN_OPTIMIZATIONS K)))"
proof (induction opts arbitrary: m a ns)
  case Nil
  then show ?case by simp
next
  case (Cons opt opts)
  have en: "is_enabled opt s0 = is_enabled opt s" using Cons.prems(1) by simp
  have rest: "\<forall>opt \<in> set opts. is_enabled opt s0 = is_enabled opt s" using Cons.prems(1) by simp
  show ?case
  proof (cases "is_enabled opt s \<and> apply_fn opt \<noteq> None")
    case False
    have 1: "apply_optimizations s ex n (opt # opts) (m, a, ns) = apply_optimizations s ex n opts (m, a, ns)"
      using False by (intro apply_optimizations_skip) auto
    have 2: "apply_optimizations s0 ex n (opt # opts) (m, a, ns) = apply_optimizations s0 ex n opts (m, a, ns)"
      using False en by (intro apply_optimizations_skip) auto
    show ?thesis
      unfolding 1 using Cons.IH [OF rest Cons.prems(2,3) Cons.prems(4) [unfolded 2]] .
  next
    case True
    then obtain rule where r: "is_enabled opt s" "apply_fn opt = Some rule" by auto
    have r0: "is_enabled opt s0" using r(1) en by simp
    obtain u x where ux: "rule n ex ns = (u, x)" by (cases "rule n ex ns")
    show ?thesis
    proof (cases "a = K + 1")
      case True
      then have "apply_optimizations s ex n (opt # opts) (m, a, ns) =
          (if is_explain s then Return (K + 1, ns)
           else Throw (TOO_MANY_QUERY_PLAN_OPTIMIZATIONS K))"
        using apply_optimizations_exceeded [OF r, of a ex n opts m ns] K by simp
      then show ?thesis by blast
    next
      case False
      then have aK: "a \<le> K" using Cons.prems(2) by simp
      let ?a = "if u \<noteq> 0 then a + 1 else a"
      have 1: "apply_optimizations s ex n (opt # opts) (m, a, ns) =
          apply_optimizations s ex n opts (max m u, ?a, x)"
        using apply_optimizations_rule [OF r _ ux] aK K by simp
      have 2: "apply_optimizations s0 ex n (opt # opts) (m, a, ns) =
          apply_optimizations s0 ex n opts (max m u, ?a, x)"
        using apply_optimizations_rule [OF r0 r(2) _ ux] s0 by simp
      have 3: "?a \<le> K + 1" "?a = K + 1 \<longrightarrow> max m u \<noteq> 0" using aK by auto
      show ?thesis
        unfolding 1 using Cons.IH [OF rest 3 Cons.prems(4) [unfolded 2]] .
    qed
  qed
qed

lemma first_pass_after_budget_sim:
  assumes K: "max_optimizations_to_apply s = K" "0 < K"
    and s0: "max_optimizations_to_apply s0 = 0"
    and en: "\<forall>opt \<in> set opts. is_enabled opt s0 = is_enabled opt s"
  shows "first_pass_after n s0 opts ex st = Some st1 \<Longrightarrow>
    total_applied_optimizations st \<le> K \<Longrightarrow> K < total_applied_optimizations st1 \<Longrightarrow>
    stops_at_budget s (K + 1) (first_pass_loop s opts ex st)"
proof (induction n arbitrary: st)
  case 0
  then show ?case by simp
next
  case (Suc n)
  note le = Suc.prems(2) and big = Suc.prems(3)
  show ?case
  proof (cases "stack st")
    case Nil
    then show ?thesis using Suc.prems(1) by simp
  next
    case (Cons fr below)
    show ?thesis
    proof (cases "depth_limit fr \<noteq> 1 \<and> next_child fr < length (children (nodes st (node fr)))")
      case True
      define st2 where "st2 = st\<lparr>stack :=
         \<lparr>node = children (nodes st (node fr)) ! next_child fr, next_child = 0,
          depth_limit = (if depth_limit fr \<noteq> 0 then depth_limit fr - 1 else 0)\<rparr>
         # fr\<lparr>next_child := next_child fr + 1\<rparr> # below\<rparr>"
      have it0: "first_pass_iteration s0 opts ex fr below st = Next st2"
        and it: "first_pass_iteration s opts ex fr below st = Next st2"
        using True by (simp_all add: first_pass_iteration_def st2_def)
      have "first_pass_after n s0 opts ex st2 = Some st1"
        using Suc.prems(1) Cons it0 by simp
      from Suc.IH [OF this _ big] le
      have "stops_at_budget s (K + 1) (first_pass_loop s opts ex st2)"
        by (simp add: st2_def)
      moreover have "first_pass_loop s opts ex st = first_pass_loop s opts ex st2"
        using Cons it by (subst first_pass_loop.simps) simp
      ultimately show ?thesis by simp
    next
      case False
      obtain m' a' ns' where u: "apply_optimizations s0 ex (node fr) opts
          (0, total_applied_optimizations st, nodes st) = Next (m', a', ns')"
        using apply_optimizations_unlimited [OF s0, of ex "node fr" opts
            "(0, total_applied_optimizations st, nodes st)"]
        by (metis prod_cases3)
      from apply_optimizations_budget_sim [OF K s0 en _ _ u] le
      consider (same) "apply_optimizations s ex (node fr) opts
            (0, total_applied_optimizations st, nodes st) = Next (m', a', ns')"
          "a' \<le> K + 1" "a' = K + 1 \<longrightarrow> m' \<noteq> 0"
        | (exit) x where "apply_optimizations s ex (node fr) opts
            (0, total_applied_optimizations st, nodes st) =
            (if is_explain s then Return (K + 1, x)
             else Throw (TOO_MANY_QUERY_PLAN_OPTIMIZATIONS K))"
        by auto
      then show ?thesis
      proof cases
        case exit
        then show ?thesis
          using Cons False K
          by (subst first_pass_loop.simps)
             (auto simp add: first_pass_iteration_def stops_at_budget_def)
      next
        case same
        define st2 where "st2 = st\<lparr>stack :=
            (if m' \<noteq> 0 then fr\<lparr>depth_limit := m', next_child := 0\<rparr> # below else below),
            total_applied_optimizations := a', nodes := ns',
            visited := visited st @ [node fr]\<rparr>"
        have it0: "first_pass_iteration s0 opts ex fr below st = Next st2"
          using False u by (auto simp add: first_pass_iteration_def st2_def)
        have it: "first_pass_iteration s opts ex fr below st = Next st2"
          using False same(1) by (auto simp add: first_pass_iteration_def st2_def)
        have l0: "first_pass_after n s0 opts ex st2 = Some st1"
          using Suc.prems(1) Cons it0 by simp
        have l: "first_pass_loop s opts ex st = first_pass_loop s opts ex st2"
          using Cons it by (subst first_pass_loop.simps) simp
        show ?thesis
        proof (cases "a' \<le> K")
          case True
          from Suc.IH [OF l0 _ big] True
          have "stops_at_budget s (K + 1) (first_pass_loop s opts ex st2)"
            by (simp add: st2_def)
          then show ?thesis using l by simp
        next
          case False
          then have a': "a' = K + 1" and m': "m' \<noteq> 0" using same(2,3) by auto
          have ne: "a' \<noteq> total_applied_optimizations st" using a' le by simp
          have ex_rule: "\<exists>opt \<in> set opts. is_enabled opt s \<and> apply_fn opt \<noteq> None"
          proof (rule ccontr)
            assume "\<not> (\<exists>opt \<in> set opts. is_enabled opt s \<and> apply_fn opt \<noteq> None)"
            from apply_optimizations_no_rule [OF this, of ex "node fr"
                "(0, total_applied_optimizations st, nodes st)"] same(1)
            show False using ne by simp
          qed
          obtain d where d: "m' = Suc d" using m' by (cases m') auto
          have "stops_at_budget s a' (first_pass_loop s opts ex
              \<lparr>stack = fr\<lparr>depth_limit := m', next_child := 0\<rparr> # below,
               total_applied_optimizations = a', nodes = ns',
               visited = visited st @ [node fr]\<rparr>)"
            using exit_on_exceeded [of s a' opts "fr\<lparr>depth_limit := m', next_child := 0\<rparr>" d]
              K a' ex_rule d by simp
          moreover have "st2 = \<lparr>stack = fr\<lparr>depth_limit := m', next_child := 0\<rparr> # below,
               total_applied_optimizations = a', nodes = ns',
               visited = visited st @ [node fr]\<rparr>"
            using m' by (simp add: st2_def)
          ultimately show ?thesis using l a' by simp
        qed
      qed
    qed
  qed
qed

lemma first_pass_loop_reaches:
  assumes "max_optimizations_to_apply s = 0" and run: "first_pass_loop s opts ex st = Some r"
  shows "\<exists>st0 n. r = Inr st0 \<and> first_pass_after n s opts ex st = Some st0"
proof -
  define P where "P = (\<lambda>s' opts' ex' (st :: 'b first_pass_state) (r :: error + 'b first_pass_state).
        s' = s \<longrightarrow> opts' = opts \<longrightarrow> ex' = ex \<longrightarrow>
        (\<exists>st0 n. r = Inr st0 \<and> first_pass_after n s opts ex st = Some st0))"
  have "P s opts ex st r"
  proof (rule first_pass_loop.raw_induct [where P = P, OF _ run], goal_cases)
    case (1 loop s' opts' ex' st r)
    note IH = 1(1) [unfolded P_def, rule_format]
    show ?case unfolding P_def
    proof (intro impI)
      assume eq: "s' = s" "opts' = opts" "ex' = ex"
      show "\<exists>st0 n. r = Inr st0 \<and> first_pass_after n s opts ex st = Some st0"
      proof (cases "stack st")
        case Nil
        then have "r = Inr st \<and> first_pass_after 0 s opts ex st = Some st" using 1(2) by simp
        then show ?thesis by blast
      next
        case (Cons fr below)
        obtain x where x: "apply_optimizations s ex (node fr) opts
            (0, total_applied_optimizations st, nodes st) = Next x"
          using apply_optimizations_unlimited [OF assms(1)] by blast
        obtain m a ns where "x = (m, a, ns)" by (cases x) auto
        with x have "\<exists>st'. first_pass_iteration s opts ex fr below st = Next st'"
          by (auto simp add: first_pass_iteration_def)
        then obtain st' where st': "first_pass_iteration s opts ex fr below st = Next st'" by blast
        then have "loop s opts ex st' = Some r" using 1(2) Cons eq by simp
        from IH [OF this refl refl refl] obtain st0 n where
          "r = Inr st0" "first_pass_after n s opts ex st' = Some st0" by blast
        then have "r = Inr st0 \<and> first_pass_after (Suc n) s opts ex st = Some st0"
          using Cons st' by simp
        then show ?thesis by blast
      qed
    qed
  qed
  then show ?thesis by (simp add: P_def)
qed

lemma first_pass_loop_unlimited_result:
  assumes "max_optimizations_to_apply s = 0" and run: "first_pass_loop s opts ex st = Some r"
  shows "\<exists>st'. r = Inr st' \<and> stack st' = []"
proof -
  define P where "P = (\<lambda>s' (opts' :: ('a, 'b) optimization list) (ex' :: extra_settings)
      (st :: 'b first_pass_state) (r :: error + 'b first_pass_state).
        s' = s \<longrightarrow> (\<exists>st'. r = Inr st' \<and> stack st' = []))"
  have "P s opts ex st r"
  proof (rule first_pass_loop.raw_induct [where P = P, OF _ run], goal_cases)
    case (1 loop s' opts' ex' st r)
    note IH = 1(1) [unfolded P_def, rule_format]
    show ?case unfolding P_def
    proof (intro impI)
      assume eq: "s' = s"
      show "\<exists>st'. r = Inr st' \<and> stack st' = []"
      proof (cases "stack st")
        case Nil
        then show ?thesis using 1(2) by auto
      next
        case (Cons fr below)
        obtain x where x: "apply_optimizations s ex' (node fr) opts'
            (0, total_applied_optimizations st, nodes st) = Next x"
          using apply_optimizations_unlimited [OF assms(1)] by blast
        obtain m a ns where "x = (m, a, ns)" by (cases x) auto
        with x have "\<exists>st'. first_pass_iteration s opts' ex' fr below st = Next st'"
          by (auto simp add: first_pass_iteration_def)
        then obtain st' where "first_pass_iteration s opts' ex' fr below st = Next st'" by blast
        then have "loop s opts' ex' st' = Some r" using 1(2) Cons eq by simp
        from IH [OF this refl] show ?thesis .
      qed
    qed
  qed
  then show ?thesis by (simp add: P_def)
qed

subsection \<open>Termination\<close>











subsection \<open>Runs on the examples\<close>

lemma always_run:
  "\<exists>st. first_pass_after 4 (example_settings\<lparr>is_explain := b\<rparr>) [always_optimization]
       (make_extra_settings (example_settings\<lparr>is_explain := b\<rparr>))
       \<lparr>stack = [\<lparr>node = 0, next_child = 0, depth_limit = 0\<rparr>],
        total_applied_optimizations = 0, nodes = example_nodes, visited = []\<rparr> = Some st
     \<and> total_applied_optimizations st = 3"
  by (simp add: eval_nat_numeral example_settings_def make_extra_settings_def
      first_pass_iteration_def always_optimization_def always_rule_def example_nodes_def)





subsection \<open>The claims about the first pass\<close>

text \<open>
  C10. If the master setting \<open>optimize_plan\<close> is false, the first pass returns at once:
  whatever the registry holds, no node is visited, the counter is still zero and the
  arena is the one passed in.
\<close>

theorem first_pass_disabled:
  "optimize_plan optimization_settings = False \<Longrightarrow>
   optimizeTreeFirstPass optimization_settings optimizations root ns =
     Some (Inr \<lparr>stack = [], total_applied_optimizations = 0, nodes = ns, visited = []\<rparr>)"
  by (simp add: optimizeTreeFirstPass_def)

theorem first_pass_disabled_witness:
  "optimizeTreeFirstPass (example_settings\<lparr>optimize_plan := False\<rparr>) [count_optimization 1] 0
     example_nodes =
   Some (Inr \<lparr>stack = [], total_applied_optimizations = 0, nodes = example_nodes, visited = []\<rparr>)"
  by (rule first_pass_disabled) simp

text \<open>
  C7. On a plan that is a finite tree, a pass whose registry is empty, or in which the
  enabling flag of every registered rule is false, returns the arena it was given: every
  node, child list and step is the one passed in, and no application is counted.
\<close>

theorem first_pass_without_rules:
  assumes "is_tree ns t" and "root_of t = root"
    and "optimizations = [] \<or> (\<forall>optimization \<in> set optimizations. \<not> is_enabled optimization optimization_settings)"
  shows "\<exists>st. optimizeTreeFirstPass optimization_settings optimizations root ns = Some (Inr st)
           \<and> nodes st = ns \<and> total_applied_optimizations st = 0"
proof (cases "optimize_plan optimization_settings")
  case False
  then show ?thesis by (simp add: optimizeTreeFirstPass_def)
next
  case True
  have "reports_no_change (\<lambda>x. x = ns) optimization_settings optimizations
          (make_extra_settings optimization_settings) (set (postorder t))"
    using assms(3) by (auto simp add: reports_no_change_def)
  from traverse_stable_root [OF this, of ns] assms(1,2) True
  show ?thesis by (auto simp add: optimizeTreeFirstPass_def)
qed

theorem first_pass_without_rules_witness:
  "\<exists>st. optimizeTreeFirstPass example_settings
          [\<lparr>apply_fn = Some (count_rule 1), is_enabled = optimize_prewhere\<rparr>] 0 example_nodes =
            Some (Inr st)
        \<and> nodes st = example_nodes \<and> total_applied_optimizations st = 0"
  by (rule first_pass_without_rules [of example_nodes example_shape])
     (simp_all add: example_nodes_def example_shape_def example_settings_def)



text \<open>
  C6. One iteration on a frame \<open>fr\<close>. A frame whose depth limit is not \<open>1\<close> and that has
  a child left pushes that child with the limit decremented by one (\<open>0\<close>, no limit, stays
  \<open>0\<close>). Otherwise, so in particular at depth limit \<open>1\<close> whatever children there are,
  the node is visited: when the rule loop completes, its result is the maximum of the
  update depths the applied rules reported; if that is not zero the frame stays with
  exactly that depth limit and child cursor \<open>0\<close>, if it is zero the frame is popped.
  A frame with depth limit \<open>d\<close> on a tree that no rule changes any more is traversed
  down to \<open>d\<close> layers and no further: the nodes visited until it is popped are the
  post-order of the tree cut at depth \<open>d\<close>.
\<close>

theorem first_pass_visit_redescent:
  "(depth_limit fr \<noteq> 1 \<and> next_child fr < length (children (nodes st (node fr))) \<longrightarrow>
      first_pass_iteration s opts ex fr below st =
        Next (st\<lparr>stack :=
               \<lparr>node = children (nodes st (node fr)) ! next_child fr, next_child = 0,
                depth_limit = depth_limit fr - 1\<rparr>
               # fr\<lparr>next_child := next_child fr + 1\<rparr> # below\<rparr>))
   \<and> ((depth_limit fr = 1 \<or> length (children (nodes st (node fr))) \<le> next_child fr) \<and>
        apply_optimizations s ex (node fr) opts (0, total_applied_optimizations st, nodes st) =
          Next (m, a, ns') \<longrightarrow>
      m = Max (set (0 # reported_depths s ex (node fr) opts (total_applied_optimizations st, nodes st)))
      \<and> first_pass_iteration s opts ex fr below st =
          Next (st\<lparr>stack := (if m \<noteq> 0 then fr\<lparr>depth_limit := m, next_child := 0\<rparr> # below else below),
                   total_applied_optimizations := a, nodes := ns',
                   visited := visited st @ [node fr]\<rparr>))
   \<and> (is_tree ns t \<and> reports_no_change (\<lambda>x. x = ns) s opts ex (set (visit_order d t))
        \<and> (max_optimizations_to_apply s = 0 \<or> k \<le> max_optimizations_to_apply s) \<longrightarrow>
      first_pass_loop s opts ex
        \<lparr>stack = \<lparr>node = root_of t, next_child = 0, depth_limit = d\<rparr> # below,
         total_applied_optimizations = k, nodes = ns, visited = v\<rparr> =
      first_pass_loop s opts ex
        \<lparr>stack = below, total_applied_optimizations = k, nodes = ns,
         visited = v @ visit_order d t\<rparr>)"
proof (intro conjI impI)
  assume "depth_limit fr \<noteq> 1 \<and> next_child fr < length (children (nodes st (node fr)))"
  then show "first_pass_iteration s opts ex fr below st =
        Next (st\<lparr>stack :=
               \<lparr>node = children (nodes st (node fr)) ! next_child fr, next_child = 0,
                depth_limit = depth_limit fr - 1\<rparr>
               # fr\<lparr>next_child := next_child fr + 1\<rparr> # below\<rparr>)"
    by (simp add: first_pass_iteration_def)
next
  assume a: "(depth_limit fr = 1 \<or> length (children (nodes st (node fr))) \<le> next_child fr) \<and>
        apply_optimizations s ex (node fr) opts (0, total_applied_optimizations st, nodes st) =
          Next (m, a, ns')"
  then show "m = Max (set (0 # reported_depths s ex (node fr) opts (total_applied_optimizations st, nodes st)))"
    using apply_optimizations_max by blast
  from a show "first_pass_iteration s opts ex fr below st =
          Next (st\<lparr>stack := (if m \<noteq> 0 then fr\<lparr>depth_limit := m, next_child := 0\<rparr> # below else below),
                   total_applied_optimizations := a, nodes := ns',
                   visited := visited st @ [node fr]\<rparr>)"
    by (auto simp add: first_pass_iteration_def)
next
  assume a: "is_tree ns t \<and> reports_no_change (\<lambda>x. x = ns) s opts ex (set (visit_order d t))
        \<and> (max_optimizations_to_apply s = 0 \<or> k \<le> max_optimizations_to_apply s)"
  obtain n ts where t: "t = Shape n ts" by (cases t)
  have "\<exists>ns'. ns' = ns \<and>
      first_pass_loop s opts ex
        \<lparr>stack = \<lparr>node = n, next_child = 0, depth_limit = d\<rparr> # below,
         total_applied_optimizations = k, nodes = ns, visited = v\<rparr> =
      first_pass_loop s opts ex
        \<lparr>stack = below, total_applied_optimizations = k, nodes = ns',
         visited = v @ (if d = 1 then [] else concat (map (visit_order (d - 1)) (drop 0 ts))) @ [n]\<rparr>"
    using a unfolding t
    by (intro traverse_stable [where Q = "\<lambda>x. x = ns" and N = "set (visit_order d (Shape n ts))"])
       simp_all
  then show "first_pass_loop s opts ex
        \<lparr>stack = \<lparr>node = root_of t, next_child = 0, depth_limit = d\<rparr> # below,
         total_applied_optimizations = k, nodes = ns, visited = v\<rparr> =
      first_pass_loop s opts ex
        \<lparr>stack = below, total_applied_optimizations = k, nodes = ns,
         visited = v @ visit_order d t\<rparr>"
    by (simp add: t)
qed

theorem first_pass_visit_redescent_witness:
  "first_pass_iteration example_settings [count_optimization 1]
       (make_extra_settings example_settings) \<lparr>node = 0, next_child = 0, depth_limit = 2\<rparr> []
       \<lparr>stack = [\<lparr>node = 0, next_child = 0, depth_limit = 2\<rparr>],
        total_applied_optimizations = 0, nodes = example_nodes, visited = []\<rparr> =
     Next \<lparr>stack = [\<lparr>node = 1, next_child = 0, depth_limit = 1\<rparr>,
                     \<lparr>node = 0, next_child = 1, depth_limit = 2\<rparr>],
           total_applied_optimizations = 0, nodes = example_nodes, visited = []\<rparr>
   \<and> first_pass_iteration example_settings [count_optimization 1]
       (make_extra_settings example_settings) \<lparr>node = 0, next_child = 0, depth_limit = 1\<rparr> []
       \<lparr>stack = [\<lparr>node = 0, next_child = 0, depth_limit = 1\<rparr>],
        total_applied_optimizations = 0, nodes = example_nodes, visited = []\<rparr> =
     Next \<lparr>stack = [\<lparr>node = 0, next_child = 0, depth_limit = 1\<rparr>],
           total_applied_optimizations = 1,
           nodes = example_nodes(0 := \<lparr>step = 1, children = [1, 2]\<rparr>), visited = [0]\<rparr>
   \<and> first_pass_loop example_settings [count_optimization 0]
       (make_extra_settings example_settings)
       \<lparr>stack = [\<lparr>node = 0, next_child = 0, depth_limit = 1\<rparr>],
        total_applied_optimizations = 0, nodes = example_nodes, visited = []\<rparr> =
     Some (Inr \<lparr>stack = [], total_applied_optimizations = 0, nodes = example_nodes,
                visited = [0]\<rparr>)"
proof -
  let ?ex = "make_extra_settings example_settings"
  have a: "apply_optimizations example_settings ?ex 0 [count_optimization 1] (0, 0, example_nodes) =
      Next (1, 1, example_nodes(0 := \<lparr>step = 1, children = [1, 2]\<rparr>))"
    by (simp add: example_settings_def count_optimization_def count_rule_def example_nodes_def)
  have ch: "children (example_nodes 0) = [1, 2]" by (simp add: example_nodes_def)
  have tree: "is_tree example_nodes example_shape"
    by (simp add: example_nodes_def example_shape_def)
  have stable: "reports_no_change (\<lambda>x. x = example_nodes) example_settings
      [count_optimization 0] ?ex (set (visit_order 1 example_shape))"
    by (simp add: reports_no_change_def count_optimization_def count_rule_def)
  have cut: "first_pass_loop example_settings [count_optimization 0] ?ex
       \<lparr>stack = [\<lparr>node = 0, next_child = 0, depth_limit = 1\<rparr>],
        total_applied_optimizations = 0, nodes = example_nodes, visited = []\<rparr> =
     Some (Inr \<lparr>stack = [], total_applied_optimizations = 0, nodes = example_nodes,
                visited = [0]\<rparr>)"
    using first_pass_visit_redescent [where ns = example_nodes and t = example_shape
        and s = example_settings and opts = "[count_optimization 0]" and ex = ?ex and d = 1
        and k = 0 and below = "[]" and v = "[]", THEN conjunct2, THEN conjunct2]
      tree stable
    by (simp add: example_shape_def example_settings_def loop_empty)
  show ?thesis
    using cut first_pass_visit_redescent [of "\<lparr>node = 0, next_child = 0, depth_limit = 2\<rparr>"
        "\<lparr>stack = [\<lparr>node = 0, next_child = 0, depth_limit = 2\<rparr>],
          total_applied_optimizations = 0, nodes = example_nodes, visited = []\<rparr>"
        example_settings "[count_optimization 1]" ?ex "[]"]
      first_pass_visit_redescent [of "\<lparr>node = 0, next_child = 0, depth_limit = 1\<rparr>"
        "\<lparr>stack = [\<lparr>node = 0, next_child = 0, depth_limit = 1\<rparr>],
          total_applied_optimizations = 0, nodes = example_nodes, visited = []\<rparr>"
        example_settings "[count_optimization 1]" ?ex "[]" 1 1
        "example_nodes(0 := \<lparr>step = 1, children = [1, 2]\<rparr>)"]
      a ch
    by simp
qed

text \<open>
  C1, as written: with limit \<open>K > 0\<close> and rules that would apply \<open>K + 1\<close> times, a run
  in explain mode leaves at most \<open>K\<close> applied changes. With \<open>K = 2\<close> and a rule that
  changes each of the three nodes once, the run without limit counts three applications,
  and the run in explain mode with limit \<open>2\<close> returns with three applications counted
  and all three steps changed.
\<close>

theorem first_pass_budget_counterexample:
  "result_counter (optimizeTreeFirstPass (example_settings\<lparr>is_explain := True\<rparr>)
       [count_optimization 1] 0 example_nodes) = Some (Inr 3)
   \<and> result_counter (optimizeTreeFirstPass
       (example_settings\<lparr>max_optimizations_to_apply := 2, is_explain := True\<rparr>)
       [count_optimization 1] 0 example_nodes) = Some (Inr 3)
   \<and> result_steps [0, 1, 2] (optimizeTreeFirstPass
       (example_settings\<lparr>max_optimizations_to_apply := 2, is_explain := True\<rparr>)
       [count_optimization 1] 0 example_nodes) = Some (Inr [1, 1, 1])
   \<and> step (example_nodes 0) = 0 \<and> step (example_nodes 1) = 0 \<and> step (example_nodes 2) = 0
   \<and> \<not> (3::nat) \<le> 2"
  by (simp add: result_counter_def result_steps_def optimizeTreeFirstPass_def example_settings_def
      make_extra_settings_def first_pass_loop.simps first_pass_iteration_def
      count_optimization_def count_rule_def example_nodes_def)

text \<open>
  C1, amended. The budget check precedes every rule application and fires once the
  counter exceeds the limit. With limit \<open>0\<close> the pass never throws. With limit \<open>K > 0\<close>,
  \<open>optimize_plan\<close> set and rules that would apply more than \<open>K\<close> times, the pass stops at the check with
  \<open>K + 1\<close> applications counted: it throws the budget error in normal mode, and in
  explain mode it returns without error, after \<open>K + 1\<close> (not \<open>K\<close>) applications. That
  the rules would apply more than \<open>K\<close> times means that the pass without limit reaches,
  after some number \<open>n\<close> of iterations of its loop, a state that has counted more than
  \<open>K\<close> applications; the pass without limit need not return, so rules that never settle
  are covered. When it does return, its final state is reached after some number of
  iterations: that is the last part. The enabling flags are members of type bool, so
  changing the limit does not change them: that is the hypothesis on \<open>is_enabled\<close>.
\<close>

theorem first_pass_budget:
  "(max_optimizations_to_apply s = 0 \<longrightarrow>
      optimizeTreeFirstPass s opts root ns \<noteq> Some (Inl e))
   \<and> (0 < max_optimizations_to_apply s \<and> optimize_plan s
        \<and> (\<forall>opt \<in> set opts. is_enabled opt (s\<lparr>max_optimizations_to_apply := 0\<rparr>) = is_enabled opt s)
        \<and> first_pass_after n (s\<lparr>max_optimizations_to_apply := 0\<rparr>) opts (make_extra_settings s)
             \<lparr>stack = [\<lparr>node = root, next_child = 0, depth_limit = 0\<rparr>],
              total_applied_optimizations = 0, nodes = ns, visited = []\<rparr> = Some st1
        \<and> max_optimizations_to_apply s < total_applied_optimizations st1 \<longrightarrow>
      stops_at_budget s (max_optimizations_to_apply s + 1) (optimizeTreeFirstPass s opts root ns))
   \<and> (optimize_plan s
        \<and> optimizeTreeFirstPass (s\<lparr>max_optimizations_to_apply := 0\<rparr>) opts root ns = Some r \<longrightarrow>
      (\<exists>st0 k. r = Inr st0
         \<and> first_pass_after k (s\<lparr>max_optimizations_to_apply := 0\<rparr>) opts (make_extra_settings s)
             \<lparr>stack = [\<lparr>node = root, next_child = 0, depth_limit = 0\<rparr>],
              total_applied_optimizations = 0, nodes = ns, visited = []\<rparr> = Some st0))"
proof (intro conjI impI)
  assume zero: "max_optimizations_to_apply s = 0"
  show "optimizeTreeFirstPass s opts root ns \<noteq> Some (Inl e)"
  proof
    assume err: "optimizeTreeFirstPass s opts root ns = Some (Inl e)"
    then have "first_pass_loop s opts (make_extra_settings s)
        \<lparr>stack = [\<lparr>node = root, next_child = 0, depth_limit = 0\<rparr>],
         total_applied_optimizations = 0, nodes = ns, visited = []\<rparr> = Some (Inl e)"
      by (simp add: optimizeTreeFirstPass_def split: if_splits)
    from first_pass_loop_unlimited_result [OF zero this] show False by simp
  qed
next
  let ?s0 = "s\<lparr>max_optimizations_to_apply := 0\<rparr>"
  let ?init = "\<lparr>stack = [\<lparr>node = root, next_child = 0, depth_limit = 0\<rparr>],
              total_applied_optimizations = 0, nodes = ns, visited = []\<rparr>"
  assume a: "0 < max_optimizations_to_apply s \<and> optimize_plan s
        \<and> (\<forall>opt \<in> set opts. is_enabled opt ?s0 = is_enabled opt s)
        \<and> first_pass_after n ?s0 opts (make_extra_settings s) ?init = Some st1
        \<and> max_optimizations_to_apply s < total_applied_optimizations st1"
  have "stops_at_budget s (max_optimizations_to_apply s + 1)
          (first_pass_loop s opts (make_extra_settings s) ?init)"
    using first_pass_after_budget_sim [OF refl _ _ _ _ _ _, of s ?s0 opts n
        "make_extra_settings s" ?init st1] a
    by simp
  then show "stops_at_budget s (max_optimizations_to_apply s + 1) (optimizeTreeFirstPass s opts root ns)"
    using a by (simp add: optimizeTreeFirstPass_def)
next
  let ?s0 = "s\<lparr>max_optimizations_to_apply := 0\<rparr>"
  let ?init = "\<lparr>stack = [\<lparr>node = root, next_child = 0, depth_limit = 0\<rparr>],
              total_applied_optimizations = 0, nodes = ns, visited = []\<rparr>"
  assume a: "optimize_plan s \<and> optimizeTreeFirstPass ?s0 opts root ns = Some r"
  have ex: "make_extra_settings ?s0 = make_extra_settings s"
    by (simp add: make_extra_settings_def)
  from a have plan: "optimize_plan s"
    and r: "optimizeTreeFirstPass ?s0 opts root ns = Some r" by simp_all
  have run: "first_pass_loop ?s0 opts (make_extra_settings s) ?init = Some r"
    using r plan ex by (simp add: optimizeTreeFirstPass_def)
  from first_pass_loop_reaches [OF _ run]
  show "\<exists>st0 k. r = Inr st0
         \<and> first_pass_after k ?s0 opts (make_extra_settings s) ?init = Some st0"
    by simp
qed

theorem first_pass_budget_witness:
  "optimizeTreeFirstPass (example_settings\<lparr>max_optimizations_to_apply := 2\<rparr>)
       [always_optimization] 0 example_nodes =
     Some (Inl (TOO_MANY_QUERY_PLAN_OPTIMIZATIONS 2))
   \<and> (\<exists>st. optimizeTreeFirstPass
         (example_settings\<lparr>max_optimizations_to_apply := 2, is_explain := True\<rparr>)
         [always_optimization] 0 example_nodes = Some (Inr st)
       \<and> total_applied_optimizations st = 3)
   \<and> optimizeTreeFirstPass (example_settings\<lparr>max_optimizations_to_apply := 2\<rparr>)
       [count_optimization 1] 0 example_nodes =
     Some (Inl (TOO_MANY_QUERY_PLAN_OPTIMIZATIONS 2))"
proof -
  let ?n = "example_settings\<lparr>max_optimizations_to_apply := 2\<rparr>"
  let ?x = "example_settings\<lparr>max_optimizations_to_apply := 2, is_explain := True\<rparr>"
  let ?init = "\<lparr>stack = [\<lparr>node = 0, next_child = 0, depth_limit = 0\<rparr>],
        total_applied_optimizations = 0, nodes = example_nodes, visited = []\<rparr>"
  have n0: "?n\<lparr>max_optimizations_to_apply := 0\<rparr> = example_settings\<lparr>is_explain := False\<rparr>"
    and x0: "?x\<lparr>max_optimizations_to_apply := 0\<rparr> = example_settings\<lparr>is_explain := True\<rparr>"
    and exn: "make_extra_settings ?n = make_extra_settings (example_settings\<lparr>is_explain := False\<rparr>)"
    and exx: "make_extra_settings ?x = make_extra_settings (example_settings\<lparr>is_explain := True\<rparr>)"
    by (simp_all add: example_settings_def make_extra_settings_def)
  from always_run [of False] obtain a where a:
    "first_pass_after 4 (?n\<lparr>max_optimizations_to_apply := 0\<rparr>) [always_optimization]
       (make_extra_settings ?n) ?init = Some a" "total_applied_optimizations a = 3"
    unfolding n0 exn by blast
  from always_run [of True] obtain b where b:
    "first_pass_after 4 (?x\<lparr>max_optimizations_to_apply := 0\<rparr>) [always_optimization]
       (make_extra_settings ?x) ?init = Some b" "total_applied_optimizations b = 3"
    unfolding x0 exx by blast
  have "stops_at_budget ?n 3 (optimizeTreeFirstPass ?n [always_optimization] 0 example_nodes)"
    using first_pass_budget [where s = ?n and opts = "[always_optimization]" and root = 0
        and ns = example_nodes and n = 4 and ?st1.0 = a and e = undefined and r = undefined,
        THEN conjunct2, THEN conjunct1] a
    by (simp add: example_settings_def always_optimization_def)
  moreover have "stops_at_budget ?x 3 (optimizeTreeFirstPass ?x [always_optimization] 0 example_nodes)"
    using first_pass_budget [where s = ?x and opts = "[always_optimization]" and root = 0
        and ns = example_nodes and n = 4 and ?st1.0 = b and e = undefined and r = undefined,
        THEN conjunct2, THEN conjunct1] b
    by (simp add: example_settings_def always_optimization_def)
  moreover have "stops_at_budget ?n 3 (optimizeTreeFirstPass ?n [count_optimization 1] 0 example_nodes)"
  proof -
    have "\<exists>st. first_pass_after 8 (?n\<lparr>max_optimizations_to_apply := 0\<rparr>) [count_optimization 1]
       (make_extra_settings ?n) ?init = Some st \<and> total_applied_optimizations st = 3"
      by (simp add: eval_nat_numeral example_settings_def make_extra_settings_def
          first_pass_iteration_def count_optimization_def count_rule_def example_nodes_def)
    then obtain c where c: "first_pass_after 8 (?n\<lparr>max_optimizations_to_apply := 0\<rparr>)
       [count_optimization 1] (make_extra_settings ?n) ?init = Some c"
       "total_applied_optimizations c = 3" by blast
    show ?thesis
      using first_pass_budget [where s = ?n and opts = "[count_optimization 1]" and root = 0
        and ns = example_nodes and n = 8 and ?st1.0 = c and e = undefined and r = undefined,
        THEN conjunct2, THEN conjunct1] c
      by (simp add: example_settings_def count_optimization_def)
  qed
  ultimately show ?thesis
    by (simp add: stops_at_budget_def example_settings_def)
qed



section \<open>Properties of the second pass\<close>

lemmas second_pass_eval = second_pass_loops_def optimizeTreeSecondPass_def and_then_def
  while_loop.simps primary_key_iteration_def join_iteration_def optimize_joins_def
  local_replica_iteration_def replace_with_local_plan_def remove_sorting_after_local_plan_def
  projection_iteration_def first_visit_projections_def lazy_materialization_iteration_def
  check_projections_def apply_order_and_shards_def traverse_children_def called_def answered_def
  idle_collaborators_def example_settings_def scan_nodes_def


subsection \<open>The call log\<close>

lemma while_loop_rule:
  assumes run: "while_loop body st = Some (Inr r)"
    and init: "I st"
    and step: "\<And>st st'. I st \<Longrightarrow> body st = Next st' \<Longrightarrow> I st'"
    and exit: "\<And>st r. I st \<Longrightarrow> body st = Return r \<Longrightarrow> Q r"
  shows "Q r"
proof -
  define P where "P = (\<lambda>body' st (x :: error + _).
      body' = body \<longrightarrow> I st \<longrightarrow> (\<forall>r. x = Inr r \<longrightarrow> Q r))"
  have "P body st (Inr r)"
  proof (rule while_loop.raw_induct [where P = P, OF _ run], goal_cases)
    case (1 loop body' st x)
    note IH = 1(1) [unfolded P_def, rule_format]
    show ?case unfolding P_def
    proof (intro impI allI)
      fix r assume eq: "body' = body" and inv: "I st" and x: "x = Inr r"
      show "Q r"
      proof (cases "body st")
        case (Next st')
        then have "loop body st' = Some x" using 1(2) eq by simp
        from IH [OF this refl step [OF inv Next] x] show ?thesis .
      next
        case (Return r')
        then have "r' = r" using 1(2) eq x by simp
        with exit [OF inv Return] show ?thesis by simp
      next
        case (Throw e)
        then show ?thesis using 1(2) eq x by simp
      qed
    qed
  qed
  then show ?thesis using init by (simp add: P_def)
qed

lemma while_loop_preserves:
  assumes run: "while_loop body (stk, st) = Some (Inr r)"
    and step: "\<And>stk st stk' st'. body (stk, st) = Next (stk', st') \<Longrightarrow> g st' = g st"
    and exit: "\<And>stk st r. body (stk, st) = Return r \<Longrightarrow> g r = g st"
  shows "g r = g st"
proof (rule while_loop_rule [OF run, where I = "\<lambda>x. g (snd x) = g st" and Q = "\<lambda>r. g r = g st"])
  show "g (snd (stk, st)) = g st" by simp
next
  fix x x' assume "g (snd x) = g st" "body x = Next x'"
  then show "g (snd x') = g st" using step [of "fst x" "snd x" "fst x'" "snd x'"] by simp
next
  fix x r assume "g (snd x) = g st" "body x = Return r"
  then show "g r = g st" using exit [of "fst x" "snd x" r] by simp
qed

lemma and_then_Inr:
  "and_then r f = Some (Inr y) \<Longrightarrow> \<exists>x. r = Some (Inr x) \<and> f x = Some (Inr y)"
  by (auto simp add: and_then_def split: option.splits sum.splits)

lemma entries_called [simp]:
  "entries f (calls (called g n ns st)) = entries f (calls st) @ (if g = f then [Call g n] else [])"
  by (simp add: entries_def called_def callee_def)

lemma entries_answered [simp]:
  "entries f (calls (answered g n st)) = entries f (calls st) @ (if g = f then [Applied g n] else [])"
  by (simp add: entries_def answered_def callee_def)

lemma flag_called [simp]:
  "read_from_local_parallel_replica_plan (called g n ns st) = read_from_local_parallel_replica_plan st"
  by (simp add: called_def)

lemma flag_answered [simp]:
  "read_from_local_parallel_replica_plan (answered g n st) = read_from_local_parallel_replica_plan st"
  by (simp add: answered_def)

lemma primary_key_iteration_log:
  assumes "f \<notin> {''optimizePrimaryKeyConditionAndLimit'', ''updateQueryConditionCache'', ''optimizePrewhere''}"
  shows "primary_key_iteration c s (stk, st) = Next (stk', st') \<Longrightarrow>
      entries f (calls st') = entries f (calls st)
      \<and> read_from_local_parallel_replica_plan st' = read_from_local_parallel_replica_plan st"
    and "primary_key_iteration c s (stk, st) = Return r \<Longrightarrow> r = st"
  using assms
  by (auto simp add: primary_key_iteration_def Let_def split: list.splits prod.splits if_splits)

lemma optimize_joins_log:
  assumes "f \<notin> {''optimizeJoinLogical'', ''convertLogicalJoinToPhysical'', ''optimizeJoinLegacy'',
                 ''optimizeReadInOrder'', ''optimizeDistinctInOrder''}"
  shows "entries f (calls (optimize_joins c s n st)) = entries f (calls st)
      \<and> read_from_local_parallel_replica_plan (optimize_joins c s n st) =
          read_from_local_parallel_replica_plan st"
  using assms
  by (auto simp add: optimize_joins_def Let_def split: prod.splits)

lemma join_iteration_log:
  assumes "f \<notin> {''optimizeJoinLogical'', ''convertLogicalJoinToPhysical'', ''optimizeJoinLegacy'',
                 ''optimizeReadInOrder'', ''optimizeDistinctInOrder''}"
  shows "join_iteration c s (stk, st) = Next (stk', st') \<Longrightarrow>
      entries f (calls st') = entries f (calls st)
      \<and> read_from_local_parallel_replica_plan st' = read_from_local_parallel_replica_plan st"
    and "join_iteration c s (stk, st) = Return r \<Longrightarrow> r = st"
  using optimize_joins_log [OF assms]
  by (auto simp add: join_iteration_def Let_def split: list.splits if_splits)

lemma replace_with_local_plan_log:
  assumes "f \<notin> {''extractQueryPlan'', ''optimize'', ''replaceNodeWithPlan'', ''tryMergeExpressions''}"
  shows "entries f (calls (replace_with_local_plan c s n st)) = entries f (calls st)"
  using assms
  by (auto simp add: replace_with_local_plan_def Let_def split: prod.splits)

lemma replace_with_local_plan_flag:
  "read_from_local_parallel_replica_plan (replace_with_local_plan c s n st)
   \<and> entries ''replaceNodeWithPlan'' (calls (replace_with_local_plan c s n st)) \<noteq> []"
  by (auto simp add: replace_with_local_plan_def Let_def split: prod.splits)

lemma local_replica_iteration_log:
  assumes "f \<notin> {''extractQueryPlan'', ''optimize'', ''replaceNodeWithPlan'', ''tryMergeExpressions''}"
  shows "local_replica_iteration c s (stk, st) = Next (stk', st') \<Longrightarrow>
      entries f (calls st') = entries f (calls st)"
    and "local_replica_iteration c s (stk, st) = Return r \<Longrightarrow> r = st"
  using replace_with_local_plan_log [OF assms]
  by (auto simp add: local_replica_iteration_def split: list.splits if_splits)

lemma local_replica_iteration_flag:
  assumes "read_from_local_parallel_replica_plan st = (entries ''replaceNodeWithPlan'' (calls st) \<noteq> [])"
  shows "local_replica_iteration c s (stk, st) = Next (stk', st') \<Longrightarrow>
      read_from_local_parallel_replica_plan st' = (entries ''replaceNodeWithPlan'' (calls st') \<noteq> [])"
  using assms replace_with_local_plan_flag [of c s "node (hd stk)" st]
  by (auto simp add: local_replica_iteration_def split: list.splits if_splits)

lemma first_visit_projections_log:
  assumes "f \<notin> {''optimizeUseAggregateProjections'', ''optimizeAggregationInOrder''}"
  shows "entries f (calls (first_visit_projections c s n st)) = entries f (calls st)"
  using assms
  by (auto simp add: first_visit_projections_def Let_def entries_def callee_def called_def answered_def
      split: prod.splits option.splits)

lemma projection_iteration_log:
  assumes "f \<notin> {''optimizeUseAggregateProjections'', ''optimizeAggregationInOrder'',
                 ''optimizeUseNormalProjections''}"
  shows "projection_iteration c s (stk, st) = Next (stk', st') \<Longrightarrow>
      entries f (calls st') = entries f (calls st)"
    and "projection_iteration c s (stk, st) = Return r \<Longrightarrow> r = st"
proof -
  have fv: "entries f (calls (first_visit_projections c s n st)) = entries f (calls st)" for n
    using assms by (intro first_visit_projections_log) simp
  show "projection_iteration c s (stk, st) = Next (stk', st') \<Longrightarrow>
      entries f (calls st') = entries f (calls st)"
    using assms fv
    by (auto simp add: projection_iteration_def Let_def entries_def callee_def called_def answered_def
        split: list.splits prod.splits option.splits if_splits)
  show "projection_iteration c s (stk, st) = Return r \<Longrightarrow> r = st"
    by (auto simp add: projection_iteration_def Let_def
        split: list.splits prod.splits option.splits if_splits)
qed

lemma lazy_materialization_iteration_log:
  assumes "f \<noteq> ''optimizeLazyMaterialization''"
  shows "lazy_materialization_iteration c s root (stk, st) = Next (stk', st') \<Longrightarrow>
      entries f (calls st') = entries f (calls st)"
    and "lazy_materialization_iteration c s root (stk, st) = Return r \<Longrightarrow>
      entries f (calls r) = entries f (calls st)"
  using assms
  by (auto simp add: lazy_materialization_iteration_def Let_def
      split: list.splits prod.splits if_splits)

lemma primary_key_loop_log:
  assumes "f \<notin> {''optimizePrimaryKeyConditionAndLimit'', ''updateQueryConditionCache'', ''optimizePrewhere''}"
    and "while_loop (primary_key_iteration c s) (stk, st) = Some (Inr r)"
  shows "entries f (calls r) = entries f (calls st)"
    and "read_from_local_parallel_replica_plan r = read_from_local_parallel_replica_plan st"
proof -
  have "(entries f (calls r), read_from_local_parallel_replica_plan r) =
      (entries f (calls st), read_from_local_parallel_replica_plan st)"
  proof (rule while_loop_preserves [OF assms(2),
          where g = "\<lambda>st. (entries f (calls st), read_from_local_parallel_replica_plan st)"])
    fix stk st stk' st' assume "primary_key_iteration c s (stk, st) = Next (stk', st')"
    from primary_key_iteration_log(1) [OF assms(1) this]
    show "(entries f (calls st'), read_from_local_parallel_replica_plan st') =
      (entries f (calls st), read_from_local_parallel_replica_plan st)" by simp
  next
    fix stk st r assume "primary_key_iteration c s (stk, st) = Return r"
    from primary_key_iteration_log(2) [OF assms(1) this]
    show "(entries f (calls r), read_from_local_parallel_replica_plan r) =
      (entries f (calls st), read_from_local_parallel_replica_plan st)" by simp
  qed
  then show "entries f (calls r) = entries f (calls st)"
    and "read_from_local_parallel_replica_plan r = read_from_local_parallel_replica_plan st"
    by simp_all
qed

lemma join_loop_log:
  assumes "f \<notin> {''optimizeJoinLogical'', ''convertLogicalJoinToPhysical'', ''optimizeJoinLegacy'',
                 ''optimizeReadInOrder'', ''optimizeDistinctInOrder''}"
    and "while_loop (join_iteration c s) (stk, st) = Some (Inr r)"
  shows "entries f (calls r) = entries f (calls st)"
    and "read_from_local_parallel_replica_plan r = read_from_local_parallel_replica_plan st"
proof -
  have "(entries f (calls r), read_from_local_parallel_replica_plan r) =
      (entries f (calls st), read_from_local_parallel_replica_plan st)"
  proof (rule while_loop_preserves [OF assms(2),
          where g = "\<lambda>st. (entries f (calls st), read_from_local_parallel_replica_plan st)"])
    fix stk st stk' st' assume "join_iteration c s (stk, st) = Next (stk', st')"
    from join_iteration_log(1) [OF assms(1) this]
    show "(entries f (calls st'), read_from_local_parallel_replica_plan st') =
      (entries f (calls st), read_from_local_parallel_replica_plan st)" by simp
  next
    fix stk st r assume "join_iteration c s (stk, st) = Return r"
    from join_iteration_log(2) [OF assms(1) this]
    show "(entries f (calls r), read_from_local_parallel_replica_plan r) =
      (entries f (calls st), read_from_local_parallel_replica_plan st)" by simp
  qed
  then show "entries f (calls r) = entries f (calls st)"
    and "read_from_local_parallel_replica_plan r = read_from_local_parallel_replica_plan st"
    by simp_all
qed

lemma local_replica_loop_log:
  assumes "f \<notin> {''extractQueryPlan'', ''optimize'', ''replaceNodeWithPlan'', ''tryMergeExpressions''}"
    and "while_loop (local_replica_iteration c s) (stk, st) = Some (Inr r)"
  shows "entries f (calls r) = entries f (calls st)"
proof (rule while_loop_preserves [OF assms(2), where g = "\<lambda>st. entries f (calls st)"])
  fix stk st stk' st' assume "local_replica_iteration c s (stk, st) = Next (stk', st')"
  from local_replica_iteration_log(1) [OF assms(1) this]
  show "entries f (calls st') = entries f (calls st)" .
next
  fix stk st r assume "local_replica_iteration c s (stk, st) = Return r"
  from local_replica_iteration_log(2) [OF assms(1) this]
  show "entries f (calls r) = entries f (calls st)" by simp
qed

lemma local_replica_loop_flag:
  assumes "while_loop (local_replica_iteration c s) (stk, st) = Some (Inr r)"
    and "read_from_local_parallel_replica_plan st = (entries ''replaceNodeWithPlan'' (calls st) \<noteq> [])"
  shows "read_from_local_parallel_replica_plan r = (entries ''replaceNodeWithPlan'' (calls r) \<noteq> [])"
proof (rule while_loop_rule [OF assms(1),
    where I = "\<lambda>x. read_from_local_parallel_replica_plan (snd x) =
                 (entries ''replaceNodeWithPlan'' (calls (snd x)) \<noteq> [])"])
  show "read_from_local_parallel_replica_plan (snd (stk, st)) =
      (entries ''replaceNodeWithPlan'' (calls (snd (stk, st))) \<noteq> [])"
    using assms(2) by simp
next
  fix x x' assume "read_from_local_parallel_replica_plan (snd x) =
      (entries ''replaceNodeWithPlan'' (calls (snd x)) \<noteq> [])"
    "local_replica_iteration c s x = Next x'"
  then show "read_from_local_parallel_replica_plan (snd x') =
      (entries ''replaceNodeWithPlan'' (calls (snd x')) \<noteq> [])"
    using local_replica_iteration_flag [of "snd x" c s "fst x" "fst x'" "snd x'"] by simp
next
  fix x r assume "read_from_local_parallel_replica_plan (snd x) =
      (entries ''replaceNodeWithPlan'' (calls (snd x)) \<noteq> [])"
    "local_replica_iteration c s x = Return r"
  then show "read_from_local_parallel_replica_plan r =
      (entries ''replaceNodeWithPlan'' (calls r) \<noteq> [])"
    using local_replica_iteration_log(2) [of "[]" c s "fst x" "snd x" r] by simp
qed

lemma projection_loop_log:
  assumes "f \<notin> {''optimizeUseAggregateProjections'', ''optimizeAggregationInOrder'',
                 ''optimizeUseNormalProjections''}"
    and "while_loop (projection_iteration c s) (stk, st) = Some (Inr r)"
  shows "entries f (calls r) = entries f (calls st)"
proof (rule while_loop_preserves [OF assms(2), where g = "\<lambda>st. entries f (calls st)"])
  fix stk st stk' st' assume "projection_iteration c s (stk, st) = Next (stk', st')"
  from projection_iteration_log(1) [OF assms(1) this]
  show "entries f (calls st') = entries f (calls st)" .
next
  fix stk st r assume "projection_iteration c s (stk, st) = Return r"
  from projection_iteration_log(2) [OF assms(1) this]
  show "entries f (calls r) = entries f (calls st)" by simp
qed

lemma lazy_materialization_loop_log:
  assumes "f \<noteq> ''optimizeLazyMaterialization''"
    and "while_loop (lazy_materialization_iteration c s root) (stk, st) = Some (Inr r)"
  shows "entries f (calls r) = entries f (calls st)"
proof (rule while_loop_preserves [OF assms(2), where g = "\<lambda>st. entries f (calls st)"])
  fix stk st stk' st' assume "lazy_materialization_iteration c s root (stk, st) = Next (stk', st')"
  from lazy_materialization_iteration_log(1) [OF assms(1) this]
  show "entries f (calls st') = entries f (calls st)" .
next
  fix stk st r assume "lazy_materialization_iteration c s root (stk, st) = Return r"
  from lazy_materialization_iteration_log(2) [OF assms(1) this]
  show "entries f (calls r) = entries f (calls st)" by simp
qed

lemma lazy_applications_append [simp]:
  "lazy_applications (xs @ ys) = lazy_applications xs @ lazy_applications ys"
  by (simp add: lazy_applications_def)

lemma lazy_applications_entries:
  "entries ''optimizeLazyMaterialization'' log = [] \<Longrightarrow> lazy_applications log = []"
  by (auto simp add: entries_def lazy_applications_def callee_def filter_empty_conv split: call.splits)

lemma lazy_materialization_iteration_calls:
  shows "lazy_materialization_iteration c s root (stk, st) = Next (stk', st') \<Longrightarrow>
      \<exists>new. calls st' = calls st @ new \<and> lazy_applications new = []"
    and "lazy_materialization_iteration c s root (stk, st) = Return r \<Longrightarrow>
      calls r = calls st
      \<or> (\<exists>n. calls r = calls st @ [Call ''optimizeLazyMaterialization'' n,
                                    Applied ''optimizeLazyMaterialization'' n])"
  by (auto simp add: lazy_materialization_iteration_def Let_def called_def answered_def
      lazy_applications_def split: list.splits prod.splits if_splits)

lemma lazy_materialization_loop_applications:
  assumes "while_loop (lazy_materialization_iteration c s root) (stk, st) = Some (Inr r)"
  shows "\<exists>new. calls r = calls st @ new
      \<and> (lazy_applications new = []
          \<or> (\<exists>pre n. new = pre @ [Applied ''optimizeLazyMaterialization'' n]
                \<and> lazy_applications pre = []))"
proof (rule while_loop_rule [OF assms,
    where I = "\<lambda>x. \<exists>new. calls (snd x) = calls st @ new \<and> lazy_applications new = []"])
  show "\<exists>new. calls (snd (stk, st)) = calls st @ new \<and> lazy_applications new = []"
    by (simp add: lazy_applications_def)
next
  fix x x'
  assume inv: "\<exists>new. calls (snd x) = calls st @ new \<and> lazy_applications new = []"
    and it: "lazy_materialization_iteration c s root x = Next x'"
  from inv obtain new where new: "calls (snd x) = calls st @ new" "lazy_applications new = []"
    by blast
  from lazy_materialization_iteration_calls(1) [of c s root "fst x" "snd x" "fst x'" "snd x'"] it
  obtain more where more: "calls (snd x') = calls (snd x) @ more" "lazy_applications more = []"
    by auto
  show "\<exists>new. calls (snd x') = calls st @ new \<and> lazy_applications new = []"
    using new more by (intro exI [of _ "new @ more"]) simp
next
  fix x r
  assume inv: "\<exists>new. calls (snd x) = calls st @ new \<and> lazy_applications new = []"
    and it: "lazy_materialization_iteration c s root x = Return r"
  from inv obtain new where new: "calls (snd x) = calls st @ new" "lazy_applications new = []"
    by blast
  from lazy_materialization_iteration_calls(2) [of c s root "fst x" "snd x" r] it
  consider "calls r = calls (snd x)"
    | n where "calls r = calls (snd x) @ [Call ''optimizeLazyMaterialization'' n,
                                    Applied ''optimizeLazyMaterialization'' n]"
    by auto
  then show "\<exists>new. calls r = calls st @ new
      \<and> (lazy_applications new = []
          \<or> (\<exists>pre n. new = pre @ [Applied ''optimizeLazyMaterialization'' n]
                \<and> lazy_applications pre = []))"
  proof cases
    case 1
    then show ?thesis using new by auto
  next
    case (2 n)
    have "lazy_applications (new @ [Call ''optimizeLazyMaterialization'' n]) = []"
      using new(2) by (simp add: lazy_applications_def)
    moreover have "calls r = calls st @ (new @ [Call ''optimizeLazyMaterialization'' n])
        @ [Applied ''optimizeLazyMaterialization'' n]"
      using 2 new(1) by simp
    ultimately show ?thesis by (metis append_assoc)
  qed
qed

lemma second_pass_loops_states:
  assumes "second_pass_loops c s root ns = Some (Inr st)"
  obtains st1 st2 st3 st4 where
    "while_loop (primary_key_iteration c s)
       ([\<lparr>node = root, next_child = 0\<rparr>],
        \<lparr>plan_nodes = ns, applied_projection_names = {}, has_reading_from_mt = False,
         read_from_local_parallel_replica_plan = False, calls = []\<rparr>) = Some (Inr st1)"
    "while_loop (join_iteration c s)
       ([\<lparr>node = root, next_child = 0\<rparr>],
        called ''calculateHashTableCacheKeys'' root
          (calculateHashTableCacheKeys c root (plan_nodes st1)) st1) = Some (Inr st2)"
    "while_loop (local_replica_iteration c s) ([\<lparr>node = root, next_child = 0\<rparr>], st2) =
       Some (Inr st3)"
    "while_loop (projection_iteration c s)
       ([\<lparr>node = root, next_child = 0\<rparr>], remove_sorting_after_local_plan c s root st3) =
       Some (Inr st4)"
    "(if optimize_lazy_materialization s
      then while_loop (lazy_materialization_iteration c s root)
             ([\<lparr>node = root, next_child = 0\<rparr>], st4)
      else Some (Inr st4)) = Some (Inr st)"
proof -
  from assms [unfolded second_pass_loops_def]
  obtain st1 where 1: "while_loop (primary_key_iteration c s)
       ([\<lparr>node = root, next_child = 0\<rparr>],
        \<lparr>plan_nodes = ns, applied_projection_names = {}, has_reading_from_mt = False,
         read_from_local_parallel_replica_plan = False, calls = []\<rparr>) = Some (Inr st1)"
    and r1: "and_then (while_loop (join_iteration c s)
                 ([\<lparr>node = root, next_child = 0\<rparr>],
                  called ''calculateHashTableCacheKeys'' root
                    (calculateHashTableCacheKeys c root (plan_nodes st1)) st1))
     (\<lambda>st2. and_then (while_loop (local_replica_iteration c s)
                 ([\<lparr>node = root, next_child = 0\<rparr>], st2))
     (\<lambda>st3. and_then (while_loop (projection_iteration c s)
                 ([\<lparr>node = root, next_child = 0\<rparr>],
                  remove_sorting_after_local_plan c s root st3))
     (\<lambda>st4. if optimize_lazy_materialization s
            then while_loop (lazy_materialization_iteration c s root)
                   ([\<lparr>node = root, next_child = 0\<rparr>], st4)
            else Some (Inr st4)))) = Some (Inr st)"
    by (blast dest: and_then_Inr)
  from and_then_Inr [OF r1]
  obtain st2 where 2: "while_loop (join_iteration c s)
       ([\<lparr>node = root, next_child = 0\<rparr>],
        called ''calculateHashTableCacheKeys'' root
          (calculateHashTableCacheKeys c root (plan_nodes st1)) st1) = Some (Inr st2)"
    and r2: "and_then (while_loop (local_replica_iteration c s)
                 ([\<lparr>node = root, next_child = 0\<rparr>], st2))
     (\<lambda>st3. and_then (while_loop (projection_iteration c s)
                 ([\<lparr>node = root, next_child = 0\<rparr>],
                  remove_sorting_after_local_plan c s root st3))
     (\<lambda>st4. if optimize_lazy_materialization s
            then while_loop (lazy_materialization_iteration c s root)
                   ([\<lparr>node = root, next_child = 0\<rparr>], st4)
            else Some (Inr st4))) = Some (Inr st)"
    by blast
  from and_then_Inr [OF r2]
  obtain st3 where 3: "while_loop (local_replica_iteration c s)
       ([\<lparr>node = root, next_child = 0\<rparr>], st2) = Some (Inr st3)"
    and r3: "and_then (while_loop (projection_iteration c s)
                 ([\<lparr>node = root, next_child = 0\<rparr>],
                  remove_sorting_after_local_plan c s root st3))
     (\<lambda>st4. if optimize_lazy_materialization s
            then while_loop (lazy_materialization_iteration c s root)
                   ([\<lparr>node = root, next_child = 0\<rparr>], st4)
            else Some (Inr st4)) = Some (Inr st)"
    by blast
  from and_then_Inr [OF r3]
  obtain st4 where 4: "while_loop (projection_iteration c s)
       ([\<lparr>node = root, next_child = 0\<rparr>], remove_sorting_after_local_plan c s root st3) =
       Some (Inr st4)"
    and 5: "(if optimize_lazy_materialization s
      then while_loop (lazy_materialization_iteration c s root)
             ([\<lparr>node = root, next_child = 0\<rparr>], st4)
      else Some (Inr st4)) = Some (Inr st)"
    by blast
  from that [OF 1 2 3 4 5] show thesis .
qed

subsection \<open>The limit in the second pass\<close>









subsection \<open>The claims about the second pass\<close>

text \<open>
  C4. After the loops the pass checks the forced projections, whatever \<open>is_explain\<close>
  says (the checks do not read it): with \<open>force_use_projection\<close>, a merge tree read seen
  and no projection applied it throws \<open>PROJECTION_NOT_USED\<close>; with a forced projection
  name, a merge tree read seen and that name not among the applied ones it throws as
  well, \<open>INCORRECT_DATA\<close> unless the first check has already thrown. A merge tree read
  is seen when the projection loop visits, for the first time, a frame whose node has
  such a step.
\<close>

theorem second_pass_forced_projection:
  "second_pass_loops c s root ns = Some (Inr st) \<Longrightarrow>
   (force_use_projection s \<and> has_reading_from_mt st \<and> applied_projection_names st = {} \<longrightarrow>
      optimizeTreeSecondPass c s root ns = Some (Inl PROJECTION_NOT_USED))
   \<and> (force_projection_name s \<noteq> [] \<and> has_reading_from_mt st
        \<and> force_projection_name s \<notin> applied_projection_names st \<longrightarrow>
      optimizeTreeSecondPass c s root ns =
        Some (Inl (if force_use_projection s \<and> applied_projection_names st = {}
                   then PROJECTION_NOT_USED
                   else INCORRECT_DATA (force_projection_name s))))
   \<and> check_projections (s\<lparr>is_explain := b\<rparr>) st = check_projections s st
   \<and> has_reading_from_mt (first_visit_projections c s n st0) =
       (has_reading_from_mt st0 \<or> is_ReadFromMergeTree c (step (plan_nodes st0 n)))"
proof (intro conjI)
  assume loops: "second_pass_loops c s root ns = Some (Inr st)"
  show "force_use_projection s \<and> has_reading_from_mt st \<and> applied_projection_names st = {} \<longrightarrow>
      optimizeTreeSecondPass c s root ns = Some (Inl PROJECTION_NOT_USED)"
    using loops by (simp add: optimizeTreeSecondPass_def and_then_def check_projections_def)
  show "force_projection_name s \<noteq> [] \<and> has_reading_from_mt st
        \<and> force_projection_name s \<notin> applied_projection_names st \<longrightarrow>
      optimizeTreeSecondPass c s root ns =
        Some (Inl (if force_use_projection s \<and> applied_projection_names st = {}
                   then PROJECTION_NOT_USED
                   else INCORRECT_DATA (force_projection_name s)))"
    using loops by (simp add: optimizeTreeSecondPass_def and_then_def check_projections_def)
  show "check_projections (s\<lparr>is_explain := b\<rparr>) st = check_projections s st"
    by (simp add: check_projections_def)
  show "has_reading_from_mt (first_visit_projections c s n st0) =
       (has_reading_from_mt st0 \<or> is_ReadFromMergeTree c (step (plan_nodes st0 n)))"
    by (simp add: first_visit_projections_def Let_def called_def answered_def
        split: prod.splits option.splits)
qed


theorem second_pass_forced_projection_witness:
  "optimizeTreeSecondPass idle_collaborators
       (example_settings\<lparr>force_use_projection := True, is_explain := True\<rparr>) 0 scan_nodes =
     Some (Inl PROJECTION_NOT_USED)
   \<and> optimizeTreeSecondPass idle_collaborators
       (example_settings\<lparr>force_projection_name := ''p'', is_explain := True\<rparr>) 0 scan_nodes =
     Some (Inl (INCORRECT_DATA ''p''))"
proof -
  have loops: "\<exists>st. second_pass_loops idle_collaborators
      (example_settings\<lparr>force_use_projection := u, force_projection_name := p, is_explain := True\<rparr>)
      0 scan_nodes = Some (Inr st)
      \<and> has_reading_from_mt st \<and> applied_projection_names st = {}" for u p
    by (simp add: second_pass_eval)
  obtain st1 where st1: "second_pass_loops idle_collaborators
      (example_settings\<lparr>force_use_projection := True, force_projection_name := [], is_explain := True\<rparr>)
      0 scan_nodes = Some (Inr st1)" "has_reading_from_mt st1" "applied_projection_names st1 = {}"
    using loops by blast
  obtain st2 where st2: "second_pass_loops idle_collaborators
      (example_settings\<lparr>force_use_projection := False, force_projection_name := ''p'', is_explain := True\<rparr>)
      0 scan_nodes = Some (Inr st2)" "has_reading_from_mt st2" "applied_projection_names st2 = {}"
    using loops by blast
  show ?thesis
    using second_pass_forced_projection [OF st1(1)] second_pass_forced_projection [OF st2(1)]
      st1(2,3) st2(2,3)
    by (simp add: example_settings_def)
qed





text \<open>
  C9. The redundant sort removal runs on the whole plan exactly when a local replica read
  has been replaced and \<open>remove_redundant_sorting\<close> is set. When the loops of the second
  pass return, the log holds a call of \<open>tryRemoveRedundantSorting\<close>, one call, at the
  root, exactly when it holds a call of \<open>replaceNodeWithPlan\<close> and the setting is on; and
  the arena the projection loop starts on is, in that case, the result of
  \<open>tryRemoveRedundantSorting\<close> at the root on the arena the replica loop left, and that
  arena itself otherwise. Between the two loops the flag decides: it is set by every
  replacement. The replacement is made at a node whose children are done and whose step
  is a local replica read; it puts the optimized plan extracted from that step in the
  node's place.
\<close>

theorem second_pass_redundant_sorting:
  "(second_pass_loops c s root ns = Some (Inr st) \<longrightarrow>
      entries ''tryRemoveRedundantSorting'' (calls st) =
        (if entries ''replaceNodeWithPlan'' (calls st) \<noteq> [] \<and> remove_redundant_sorting s
         then [Call ''tryRemoveRedundantSorting'' root] else [])
      \<and> (\<exists>st2 st3 st4.
            while_loop (local_replica_iteration c s) ([\<lparr>node = root, next_child = 0\<rparr>], st2) =
              Some (Inr st3)
          \<and> entries ''replaceNodeWithPlan'' (calls st3) = entries ''replaceNodeWithPlan'' (calls st)
          \<and> plan_nodes (remove_sorting_after_local_plan c s root st3) =
              (if entries ''replaceNodeWithPlan'' (calls st) \<noteq> [] \<and> remove_redundant_sorting s
               then tryRemoveRedundantSorting c root (plan_nodes st3) else plan_nodes st3)
          \<and> while_loop (projection_iteration c s)
              ([\<lparr>node = root, next_child = 0\<rparr>], remove_sorting_after_local_plan c s root st3) =
              Some (Inr st4)))
   \<and> remove_sorting_after_local_plan c s root st0 =
        (if read_from_local_parallel_replica_plan st0 \<and> remove_redundant_sorting s
         then st0\<lparr>plan_nodes := tryRemoveRedundantSorting c root (plan_nodes st0),
                  calls := calls st0 @ [Call ''tryRemoveRedundantSorting'' root]\<rparr>
         else st0)
   \<and> (\<not> next_child fr < length (children (plan_nodes st0 (node fr))) \<longrightarrow>
        local_replica_iteration c s (fr # below, st0) =
          Next (below,
                if is_ReadFromLocalParallelReplicaStep c (step (plan_nodes st0 (node fr)))
                then replace_with_local_plan c s (node fr) st0 else st0))
   \<and> plan_nodes (replace_with_local_plan c s n st0) =
        (case extractQueryPlan c n (plan_nodes st0) of
           (local_plan, ns1) \<Rightarrow>
             let ns2 = replaceNodeWithPlan c n (optimize c s local_plan) ns1
             in if merge_expressions s then tryMergeExpressions c n ns2 else ns2)
   \<and> read_from_local_parallel_replica_plan (replace_with_local_plan c s n st0)"
proof (intro conjI impI)
  assume run: "second_pass_loops c s root ns = Some (Inr st)"
  let ?rm = "''tryRemoveRedundantSorting''" and ?rp = "''replaceNodeWithPlan''"
  from second_pass_loops_states [OF run] obtain st1 st2 st3 st4 where
    1: "while_loop (primary_key_iteration c s)
       ([\<lparr>node = root, next_child = 0\<rparr>],
        \<lparr>plan_nodes = ns, applied_projection_names = {}, has_reading_from_mt = False,
         read_from_local_parallel_replica_plan = False, calls = []\<rparr>) = Some (Inr st1)" and
    2: "while_loop (join_iteration c s)
       ([\<lparr>node = root, next_child = 0\<rparr>],
        called ''calculateHashTableCacheKeys'' root
          (calculateHashTableCacheKeys c root (plan_nodes st1)) st1) = Some (Inr st2)" and
    3: "while_loop (local_replica_iteration c s) ([\<lparr>node = root, next_child = 0\<rparr>], st2) =
       Some (Inr st3)" and
    4: "while_loop (projection_iteration c s)
       ([\<lparr>node = root, next_child = 0\<rparr>], remove_sorting_after_local_plan c s root st3) =
       Some (Inr st4)" and
    5: "(if optimize_lazy_materialization s
      then while_loop (lazy_materialization_iteration c s root)
             ([\<lparr>node = root, next_child = 0\<rparr>], st4)
      else Some (Inr st4)) = Some (Inr st)"
    by blast
  have e1: "entries f (calls st1) = []" "\<not> read_from_local_parallel_replica_plan st1"
    if "f = ?rm \<or> f = ?rp" for f
    using primary_key_loop_log [OF _ 1, of f] that by (auto simp add: entries_def)
  have e2: "entries f (calls st2) = []" "\<not> read_from_local_parallel_replica_plan st2"
    if "f = ?rm \<or> f = ?rp" for f
    using join_loop_log [OF _ 2, of f] e1 [OF that] that by auto
  have e3: "entries ?rm (calls st3) = []"
    using local_replica_loop_log [OF _ 3, of ?rm] e2(1) [of ?rm] by simp
  have f3: "read_from_local_parallel_replica_plan st3 = (entries ?rp (calls st3) \<noteq> [])"
    using local_replica_loop_flag [OF 3] e2 [of ?rp] by simp
  let ?st3 = "remove_sorting_after_local_plan c s root st3"
  have r3: "entries ?rm (calls ?st3) =
      (if entries ?rp (calls st3) \<noteq> [] \<and> remove_redundant_sorting s
       then [Call ?rm root] else [])"
    "entries ?rp (calls ?st3) = entries ?rp (calls st3)"
    using e3 f3 by (simp_all add: remove_sorting_after_local_plan_def)
  have e4: "entries f (calls st4) = entries f (calls ?st3)" if "f = ?rm \<or> f = ?rp" for f
    using projection_loop_log [OF _ 4, of f] that by auto
  have e5: "entries f (calls st) = entries f (calls st4)" if "f = ?rm \<or> f = ?rp" for f
  proof (cases "optimize_lazy_materialization s")
    case True
    with 5 have "while_loop (lazy_materialization_iteration c s root)
             ([\<lparr>node = root, next_child = 0\<rparr>], st4) = Some (Inr st)" by simp
    from lazy_materialization_loop_log [OF _ this, of f] that show ?thesis by auto
  next
    case False
    with 5 show ?thesis by simp
  qed
  show "entries ?rm (calls st) =
        (if entries ?rp (calls st) \<noteq> [] \<and> remove_redundant_sorting s
         then [Call ?rm root] else [])"
    using e5 [of ?rm] e5 [of ?rp] e4 [of ?rm] e4 [of ?rp] r3 by simp
  have rp: "entries ?rp (calls st3) = entries ?rp (calls st)"
    using e5 [of ?rp] e4 [of ?rp] r3(2) by simp
  have pl: "plan_nodes ?st3 =
      (if entries ?rp (calls st) \<noteq> [] \<and> remove_redundant_sorting s
       then tryRemoveRedundantSorting c root (plan_nodes st3) else plan_nodes st3)"
    using f3 rp by (simp add: remove_sorting_after_local_plan_def called_def)
  from 3 rp pl 4
  show "\<exists>st2 st3 st4.
            while_loop (local_replica_iteration c s) ([\<lparr>node = root, next_child = 0\<rparr>], st2) =
              Some (Inr st3)
          \<and> entries ''replaceNodeWithPlan'' (calls st3) = entries ''replaceNodeWithPlan'' (calls st)
          \<and> plan_nodes (remove_sorting_after_local_plan c s root st3) =
              (if entries ''replaceNodeWithPlan'' (calls st) \<noteq> [] \<and> remove_redundant_sorting s
               then tryRemoveRedundantSorting c root (plan_nodes st3) else plan_nodes st3)
          \<and> while_loop (projection_iteration c s)
              ([\<lparr>node = root, next_child = 0\<rparr>], remove_sorting_after_local_plan c s root st3) =
              Some (Inr st4)"
    by blast
next
  show "remove_sorting_after_local_plan c s root st0 =
        (if read_from_local_parallel_replica_plan st0 \<and> remove_redundant_sorting s
         then st0\<lparr>plan_nodes := tryRemoveRedundantSorting c root (plan_nodes st0),
                  calls := calls st0 @ [Call ''tryRemoveRedundantSorting'' root]\<rparr>
         else st0)"
    by (simp add: remove_sorting_after_local_plan_def called_def)
next
  assume "\<not> next_child fr < length (children (plan_nodes st0 (node fr)))"
  then show "local_replica_iteration c s (fr # below, st0) =
          Next (below,
                if is_ReadFromLocalParallelReplicaStep c (step (plan_nodes st0 (node fr)))
                then replace_with_local_plan c s (node fr) st0 else st0)"
    by (simp add: local_replica_iteration_def)
next
  show "plan_nodes (replace_with_local_plan c s n st0) =
        (case extractQueryPlan c n (plan_nodes st0) of
           (local_plan, ns1) \<Rightarrow>
             let ns2 = replaceNodeWithPlan c n (optimize c s local_plan) ns1
             in if merge_expressions s then tryMergeExpressions c n ns2 else ns2)"
    by (simp add: replace_with_local_plan_def Let_def called_def split: prod.splits)
next
  show "read_from_local_parallel_replica_plan (replace_with_local_plan c s n st0)"
    by (simp add: replace_with_local_plan_def Let_def called_def split: prod.splits)
qed

theorem second_pass_redundant_sorting_witness:
  "(\<exists>st. second_pass_loops sorting_collaborators
          (example_settings\<lparr>remove_redundant_sorting := True\<rparr>) 0 scan_nodes = Some (Inr st)
        \<and> entries ''replaceNodeWithPlan'' (calls st) = [Call ''replaceNodeWithPlan'' 2]
        \<and> entries ''tryRemoveRedundantSorting'' (calls st) = [Call ''tryRemoveRedundantSorting'' 0]
        \<and> step (plan_nodes st 0) = 7)
   \<and> (\<exists>st. second_pass_loops sorting_collaborators example_settings 0 scan_nodes = Some (Inr st)
        \<and> entries ''replaceNodeWithPlan'' (calls st) = [Call ''replaceNodeWithPlan'' 2]
        \<and> entries ''tryRemoveRedundantSorting'' (calls st) = []
        \<and> step (plan_nodes st 0) = 0)
   \<and> (\<exists>st. second_pass_loops sorting_collaborators
          (example_settings\<lparr>remove_redundant_sorting := True\<rparr>) 0 projection_nodes = Some (Inr st)
        \<and> entries ''replaceNodeWithPlan'' (calls st) = []
        \<and> entries ''tryRemoveRedundantSorting'' (calls st) = []
        \<and> step (plan_nodes st 0) = 0)"
proof -
  let ?on = "example_settings\<lparr>remove_redundant_sorting := True\<rparr>"
  have a: "\<exists>st. second_pass_loops sorting_collaborators ?on 0 scan_nodes = Some (Inr st)
        \<and> entries ''replaceNodeWithPlan'' (calls st) = [Call ''replaceNodeWithPlan'' 2]
        \<and> step (plan_nodes st 0) = 7"
    by (simp add: second_pass_eval sorting_collaborators_def entries_def callee_def)
  have b: "\<exists>st. second_pass_loops sorting_collaborators example_settings 0 scan_nodes = Some (Inr st)
        \<and> entries ''replaceNodeWithPlan'' (calls st) = [Call ''replaceNodeWithPlan'' 2]
        \<and> step (plan_nodes st 0) = 0"
    by (simp add: second_pass_eval sorting_collaborators_def entries_def callee_def)
  have c: "\<exists>st. second_pass_loops sorting_collaborators ?on 0 projection_nodes = Some (Inr st)
        \<and> entries ''replaceNodeWithPlan'' (calls st) = []
        \<and> step (plan_nodes st 0) = 0"
    by (simp add: second_pass_eval sorting_collaborators_def projection_nodes_def entries_def
        callee_def)
  from a obtain x where x: "second_pass_loops sorting_collaborators ?on 0 scan_nodes = Some (Inr x)"
      "entries ''replaceNodeWithPlan'' (calls x) = [Call ''replaceNodeWithPlan'' 2]"
      "step (plan_nodes x 0) = 7"
    by blast
  from b obtain y where y: "second_pass_loops sorting_collaborators example_settings 0 scan_nodes =
        Some (Inr y)"
      "entries ''replaceNodeWithPlan'' (calls y) = [Call ''replaceNodeWithPlan'' 2]"
      "step (plan_nodes y 0) = 0"
    by blast
  from c obtain z where z: "second_pass_loops sorting_collaborators ?on 0 projection_nodes =
        Some (Inr z)"
      "entries ''replaceNodeWithPlan'' (calls z) = []"
      "step (plan_nodes z 0) = 0"
    by blast
  have "entries ''tryRemoveRedundantSorting'' (calls x) = [Call ''tryRemoveRedundantSorting'' 0]"
    using second_pass_redundant_sorting [where c = sorting_collaborators
        and s = ?on and root = 0 and ns = scan_nodes and st = x, THEN conjunct1] x(1,2)
    by (simp add: example_settings_def)
  moreover have "entries ''tryRemoveRedundantSorting'' (calls y) = []"
    using second_pass_redundant_sorting [where c = sorting_collaborators
        and s = example_settings and root = 0 and ns = scan_nodes and st = y, THEN conjunct1] y(1,2)
    by (simp add: example_settings_def)
  moreover have "entries ''tryRemoveRedundantSorting'' (calls z) = []"
    using second_pass_redundant_sorting [where c = sorting_collaborators
        and s = ?on and root = 0 and ns = projection_nodes and st = z, THEN conjunct1] z(1,2)
    by simp
  ultimately show ?thesis using x y z by blast
qed

text \<open>
  C8. When the loops of the second pass return, the log holds at most one application
  of the lazy materialization, and if it holds one, that is its last entry: the
  traversal has stopped there, no node is visited and nothing is called after it. In
  its loop the rewrite is attempted on the first visit of a frame (child cursor \<open>0\<close>)
  and on no later visit; an attempt that answers \<open>true\<close> leaves the loop.
\<close>

theorem second_pass_lazy_materialization_once:
  "(second_pass_loops c s root ns = Some (Inr st) \<longrightarrow>
      lazy_applications (calls st) = []
      \<or> (\<exists>n. lazy_applications (calls st) = [Applied ''optimizeLazyMaterialization'' n]
            \<and> last (calls st) = Applied ''optimizeLazyMaterialization'' n))
   \<and> (next_child fr \<noteq> 0 \<longrightarrow>
        lazy_materialization_iteration c s root (fr # below, st0) =
          Next (traverse_children fr below st0, st0))
   \<and> (next_child fr = 0
        \<and> optimizeLazyMaterialization c root (fr # below) (max_limit_for_lazy_materialization s)
             (plan_nodes st0) = (done, ns') \<longrightarrow>
        lazy_materialization_iteration c s root (fr # below, st0) =
          (if done
           then Return (answered ''optimizeLazyMaterialization'' (node fr)
                          (called ''optimizeLazyMaterialization'' (node fr) ns' st0))
           else Next (traverse_children fr below
                        (called ''optimizeLazyMaterialization'' (node fr) ns' st0),
                      called ''optimizeLazyMaterialization'' (node fr) ns' st0)))"
proof (intro conjI impI)
  assume run: "second_pass_loops c s root ns = Some (Inr st)"
  let ?lz = "''optimizeLazyMaterialization''"
  from second_pass_loops_states [OF run] obtain st1 st2 st3 st4 where
    1: "while_loop (primary_key_iteration c s)
       ([\<lparr>node = root, next_child = 0\<rparr>],
        \<lparr>plan_nodes = ns, applied_projection_names = {}, has_reading_from_mt = False,
         read_from_local_parallel_replica_plan = False, calls = []\<rparr>) = Some (Inr st1)" and
    2: "while_loop (join_iteration c s)
       ([\<lparr>node = root, next_child = 0\<rparr>],
        called ''calculateHashTableCacheKeys'' root
          (calculateHashTableCacheKeys c root (plan_nodes st1)) st1) = Some (Inr st2)" and
    3: "while_loop (local_replica_iteration c s) ([\<lparr>node = root, next_child = 0\<rparr>], st2) =
       Some (Inr st3)" and
    4: "while_loop (projection_iteration c s)
       ([\<lparr>node = root, next_child = 0\<rparr>], remove_sorting_after_local_plan c s root st3) =
       Some (Inr st4)" and
    5: "(if optimize_lazy_materialization s
      then while_loop (lazy_materialization_iteration c s root)
             ([\<lparr>node = root, next_child = 0\<rparr>], st4)
      else Some (Inr st4)) = Some (Inr st)"
    by blast
  have e1: "entries ?lz (calls st1) = []"
    using primary_key_loop_log(1) [OF _ 1, of ?lz] by (simp add: entries_def)
  have e2: "entries ?lz (calls st2) = []"
    using join_loop_log(1) [OF _ 2, of ?lz] e1 by simp
  have e3: "entries ?lz (calls st3) = []"
    using local_replica_loop_log [OF _ 3, of ?lz] e2 by simp
  have e4: "entries ?lz (calls st4) = []"
    using projection_loop_log [OF _ 4, of ?lz] e3 by (simp add: remove_sorting_after_local_plan_def)
  have l4: "lazy_applications (calls st4) = []"
    using lazy_applications_entries [OF e4] .
  show "lazy_applications (calls st) = []
      \<or> (\<exists>n. lazy_applications (calls st) = [Applied ?lz n] \<and> last (calls st) = Applied ?lz n)"
  proof (cases "optimize_lazy_materialization s")
    case False
    with 5 l4 show ?thesis by simp
  next
    case True
    with 5 have "while_loop (lazy_materialization_iteration c s root)
             ([\<lparr>node = root, next_child = 0\<rparr>], st4) = Some (Inr st)" by simp
    from lazy_materialization_loop_applications [OF this]
    obtain new where new: "calls st = calls st4 @ new"
      "lazy_applications new = []
       \<or> (\<exists>pre n. new = pre @ [Applied ?lz n] \<and> lazy_applications pre = [])"
      by blast
    from new(2) show ?thesis
    proof
      assume "lazy_applications new = []"
      then show ?thesis using new(1) l4 by simp
    next
      assume "\<exists>pre n. new = pre @ [Applied ?lz n] \<and> lazy_applications pre = []"
      then obtain pre n where pre: "new = pre @ [Applied ?lz n]" "lazy_applications pre = []"
        by blast
      have "lazy_applications (calls st) = [Applied ?lz n]"
        using new(1) pre l4 by (simp add: lazy_applications_def)
      moreover have "last (calls st) = Applied ?lz n" using new(1) pre(1) by simp
      ultimately show ?thesis by blast
    qed
  qed
next
  assume "next_child fr \<noteq> 0"
  then show "lazy_materialization_iteration c s root (fr # below, st0) =
          Next (traverse_children fr below st0, st0)"
    by (simp add: lazy_materialization_iteration_def)
next
  assume "next_child fr = 0
        \<and> optimizeLazyMaterialization c root (fr # below) (max_limit_for_lazy_materialization s)
             (plan_nodes st0) = (done, ns')"
  then show "lazy_materialization_iteration c s root (fr # below, st0) =
          (if done
           then Return (answered ''optimizeLazyMaterialization'' (node fr)
                          (called ''optimizeLazyMaterialization'' (node fr) ns' st0))
           else Next (traverse_children fr below
                        (called ''optimizeLazyMaterialization'' (node fr) ns' st0),
                      called ''optimizeLazyMaterialization'' (node fr) ns' st0))"
    by (simp add: lazy_materialization_iteration_def Let_def)
qed

theorem second_pass_lazy_materialization_once_witness:
  "\<exists>st. second_pass_loops lazy_collaborators
          (example_settings\<lparr>optimize_lazy_materialization := True\<rparr>) 0 scan_nodes = Some (Inr st)
        \<and> entries ''optimizeLazyMaterialization'' (calls st) =
            [Call ''optimizeLazyMaterialization'' 0, Call ''optimizeLazyMaterialization'' 1,
             Applied ''optimizeLazyMaterialization'' 1]
        \<and> lazy_applications (calls st) = [Applied ''optimizeLazyMaterialization'' 1]
        \<and> last (calls st) = Applied ''optimizeLazyMaterialization'' 1"
proof -
  have "\<exists>st. second_pass_loops lazy_collaborators
          (example_settings\<lparr>optimize_lazy_materialization := True\<rparr>) 0 scan_nodes = Some (Inr st)
        \<and> entries ''optimizeLazyMaterialization'' (calls st) =
            [Call ''optimizeLazyMaterialization'' 0, Call ''optimizeLazyMaterialization'' 1,
             Applied ''optimizeLazyMaterialization'' 1]"
    by (simp add: second_pass_eval lazy_collaborators_def entries_def callee_def)
  then obtain st where st: "second_pass_loops lazy_collaborators
          (example_settings\<lparr>optimize_lazy_materialization := True\<rparr>) 0 scan_nodes = Some (Inr st)"
      "entries ''optimizeLazyMaterialization'' (calls st) =
            [Call ''optimizeLazyMaterialization'' 0, Call ''optimizeLazyMaterialization'' 1,
             Applied ''optimizeLazyMaterialization'' 1]"
    by blast
  have "Applied ''optimizeLazyMaterialization'' 1 \<in> set (entries ''optimizeLazyMaterialization'' (calls st))"
    unfolding st(2) by simp
  then have "Applied ''optimizeLazyMaterialization'' 1 \<in> set (lazy_applications (calls st))"
    by (simp add: entries_def lazy_applications_def)
  moreover have "lazy_applications (calls st) = []
      \<or> (\<exists>n. lazy_applications (calls st) = [Applied ''optimizeLazyMaterialization'' n]
            \<and> last (calls st) = Applied ''optimizeLazyMaterialization'' n)"
    using second_pass_lazy_materialization_once [where c = lazy_collaborators
        and s = "example_settings\<lparr>optimize_lazy_materialization := True\<rparr>" and root = 0
        and ns = scan_nodes and st = st, THEN conjunct1] st(1)
    by simp
  ultimately have "lazy_applications (calls st) = [Applied ''optimizeLazyMaterialization'' 1]
      \<and> last (calls st) = Applied ''optimizeLazyMaterialization'' 1"
    by auto
  with st show ?thesis by blast
qed

end
